theory Spec2Isabelle
  imports Main "HOL-Library.Multiset"
begin

section \<open>Data model\<close>

text \<open>
  A log entry carries a timestamp (\<open>entry.date\<close>, compared by subtraction in the heap
  comparator) and an opaque message.
\<close>

record LogEntry =
  date :: int
  msg :: string

text \<open>
  The three places of \<open>async-sorted-merge.js\<close> that call \<open>popAsync()\<close>, each attaching
  its own continuation with \<open>.then\<close>: the initial fetch loop (line 48), \<open>bufferLogs\<close>
  (line 34) and CASE 4 of \<open>processNextLogEntry\<close> (line 102).
\<close>

datatype kind = Initial | Prefetch | Direct

text \<open>
  Modelled from the spec: the log source (\<open>popAsync() -> suspends, resolves to Entry | None\<close>)
  is an external collaborator whose code is not part of the merge module. A source holds
  the entries it has yet to hand out, ascending; a call of \<open>popAsync\<close> takes the next
  entry (or the exhaustion signal \<open>None\<close>, JavaScript \<open>false\<close>) and leaves a promise
  outstanding that settles at some later time. \<open>outstanding\<close> lists the promises of this
  source that have not settled yet, each with the continuation attached to it and the
  value it will deliver. The sources passed to the merge are distinct objects.
\<close>

record LogSource =
  remaining :: "LogEntry list"
  outstanding :: "(kind \<times> LogEntry option) list"

text \<open>
  Modelled from the spec: \<open>popAsync()\<close> with the continuation \<open>k\<close> attached to the
  promise it returns. Once a source is exhausted every further call delivers \<open>None\<close>.
\<close>

definition popAsync :: "kind \<Rightarrow> LogSource \<Rightarrow> LogSource" where
  "popAsync k src =
     (case remaining src of
        [] \<Rightarrow> src\<lparr>outstanding := outstanding src @ [(k, None)]\<rparr>
      | e # r \<Rightarrow> \<lparr>remaining = r, outstanding = outstanding src @ [(k, Some e)]\<rparr>)"

text \<open>
  The promise stored in \<open>sourceContext.nextEntryPromise\<close> is
  \<open>popAsync().then(...)\<close>: it is pending until the fetch settles; when the fetch is
  fulfilled the continuation itself resets the field to \<open>null\<close>, when the fetch is rejected
  the continuation does not run and the field keeps the rejected promise.
\<close>

datatype promise = Pending | Rejected

text \<open>
  The object literal of lines 52-57. Its \<open>source\<close> field is the position of the context in
  \<open>contexts\<close>: context \<open>i\<close> belongs to source \<open>i\<close>.
\<close>

record sourceContext =
  entry :: LogEntry
  drained :: bool
  bufferedEntries :: "LogEntry list"
  nextEntryPromise :: "promise option"

text \<open>
  Where the chain of \<open>processNextLogEntry\<close> calls stands: not yet started
  (\<open>Promise.all(promises)\<close> pending), about to call \<open>processNextLogEntry\<close>, waiting on
  \<open>nextEntryPromise\<close> of a context (CASE 2), resumed from that wait with the continuation
  of line 89 queued, waiting on the \<open>popAsync()\<close> of CASE 4, returned after
  \<open>printer.done()\<close>, rejected (\<open>Failed\<close>: the promise returned by the merge has rejected,
  with the error of a fetch the chain waited on or with the \<open>RangeError\<close> of a call for
  which the call stack had no room), or past a \<open>shift()\<close> of an empty buffer that put
  \<open>undefined\<close> into \<open>entry\<close>.
\<close>

datatype driver =
  NotStarted | Running | AwaitPrefetch nat | Resumable nat | AwaitDirect nat
  | Finished | Failed | UndefinedHead

text \<open>The two calls the merge makes on the output sink: \<open>printer.print(entry)\<close> and \<open>printer.done()\<close>.\<close>

datatype sink_call = Print LogEntry | Done

text \<open>How a fetch has settled: fulfilled with an entry or the exhaustion signal, or rejected.\<close>

datatype settlement = Fulfilled "LogEntry option" | RejectedFetch

text \<open>
  The state of one run of the asynchronous merge. \<open>heap\<close> holds the positions of the
  contexts that are in the heap (the heap library is external: \<open>push\<close> adds a context,
  \<open>pop\<close> removes one whose \<open>entry.date\<close> is minimal). \<open>printer\<close> is the sequence of calls
  received by the output sink. \<open>settled\<close> is a history of the fetches that have settled,
  kept for stating properties; no operation reads it.

  \<open>stack\<close> is the depth of the call stack where the chain stands. The calls of lines 80,
  85 and 99 (\<open>return processNextLogEntry()\<close>, \<open>return getNextEntry()\<close>) are ordinary
  nested calls: the frame of the caller stays on the call stack until the callee returns,
  and the callee returns only when the chain reaches \<open>printer.done()\<close> or a promise to
  wait on (CASE 2, CASE 4). While the chain runs through CASE 1 and CASE 3 the frames of
  \<open>processNextLogEntry\<close> and \<open>getNextEntry\<close> pile up. When the driver is about to call
  \<open>processNextLogEntry\<close>, \<open>stack\<close> is the number of frames of the module (calls of
  \<open>processNextLogEntry\<close> and \<open>getNextEntry\<close> and the continuation that started them)
  that are then on the call stack; elsewhere the field is not read. The calls that
  return before the chain goes on (\<open>heap.pop()\<close>, \<open>printer.print()\<close>, \<open>shift()\<close>,
  \<open>bufferLogs()\<close>, \<open>popAsync()\<close>, \<open>then()\<close>) are taken to find the room they need: the
  depth of the call stack, \<open>lim\<close> below, is counted in frames of the chain.
\<close>

record state =
  logSources :: "LogSource list"
  contexts :: "sourceContext option list"
  heap :: "nat list"
  numLogEntriesBuffered :: int
  driver :: driver
  printer :: "sink_call list"
  settled :: "(nat \<times> settlement) list"
  stack :: int

text \<open>The ceiling of the module (line 7).\<close>

definition MAX_LOG_ENTRY_BUFFER_SIZE :: int where
  "MAX_LOG_ENTRY_BUFFER_SIZE = 100000"

section \<open>The asynchronous merge\<close>

text \<open>
  \<open>bufferLogs\<close> (lines 22-43), up to the call of \<open>popAsync\<close>; the ceiling is the
  parameter \<open>mx\<close> (\<open>MAX_LOG_ENTRY_BUFFER_SIZE\<close> in the module). The context is always one
  that exists.
\<close>

definition bufferLogs :: "int \<Rightarrow> nat \<Rightarrow> state \<Rightarrow> state" where
  "bufferLogs mx i s =
     (case contexts s ! i of
        None \<Rightarrow> s
      | Some c \<Rightarrow>
          if numLogEntriesBuffered s = mx then s
          else if drained c then s
          else if nextEntryPromise c \<noteq> None then s
          else s\<lparr>numLogEntriesBuffered := numLogEntriesBuffered s + 1,
                 logSources := (logSources s)[i := popAsync Prefetch (logSources s ! i)],
                 contexts := (contexts s)[i := Some (c\<lparr>nextEntryPromise := Some Pending\<rparr>)]\<rparr>)"

text \<open>The continuation of the initial fetch (lines 48-61).\<close>

definition initialFetched :: "int \<Rightarrow> nat \<Rightarrow> LogEntry option \<Rightarrow> state \<Rightarrow> state" where
  "initialFetched mx i v s =
     (case v of
        None \<Rightarrow> s
      | Some logEntry \<Rightarrow>
          bufferLogs mx i
            (s\<lparr>contexts := (contexts s)[i := Some \<lparr>entry = logEntry, drained = False,
                                                 bufferedEntries = [], nextEntryPromise = None\<rparr>],
               heap := heap s @ [i]\<rparr>))"

text \<open>
  The continuation inside \<open>bufferLogs\<close> (lines 34-42). When it returns,
  \<open>nextEntryPromise\<close> is fulfilled, which queues the continuation of line 89 if the
  driver waits on it.
\<close>

definition prefetched :: "int \<Rightarrow> nat \<Rightarrow> LogEntry option \<Rightarrow> state \<Rightarrow> state option" where
  "prefetched mx i v s =
     (case contexts s ! i of
        None \<Rightarrow> None
      | Some c \<Rightarrow>
          let c' = (case v of
                      Some e \<Rightarrow> c\<lparr>bufferedEntries := bufferedEntries c @ [e]\<rparr>
                    | None \<Rightarrow> c\<lparr>drained := True\<rparr>);
              s' = bufferLogs mx i
                     (s\<lparr>contexts := (contexts s)[i := Some (c'\<lparr>nextEntryPromise := None\<rparr>)]\<rparr>)
          in Some (if driver s = AwaitPrefetch i then s'\<lparr>driver := Resumable i\<rparr> else s'))"

text \<open>
  A call of \<open>getNextEntry\<close> (lines 75-81) made with \<open>stack s\<close> frames on the call stack,
  up to its call of \<open>processNextLogEntry\<close> (line 80). \<open>lim\<close> is the number of frames the
  call stack holds, a property of the engine that runs the module: when no frame is
  left the call throws a \<open>RangeError\<close>, which nothing in the module catches, so that the
  promise returned by the merge rejects. \<open>shift()\<close> of an empty array returns
  \<open>undefined\<close>; the model stops there, in \<open>UndefinedHead\<close>.
\<close>

definition getNextEntry :: "int \<Rightarrow> int \<Rightarrow> nat \<Rightarrow> state \<Rightarrow> state option" where
  "getNextEntry lim mx i s =
     (if lim \<le> stack s then Some (s\<lparr>driver := Failed\<rparr>)
      else
        (case contexts s ! i of
           None \<Rightarrow> None
         | Some c \<Rightarrow>
             let s1 = s\<lparr>numLogEntriesBuffered := numLogEntriesBuffered s - 1\<rparr> in
             (case bufferedEntries c of
                [] \<Rightarrow> Some (s1\<lparr>driver := UndefinedHead\<rparr>)
              | e # r \<Rightarrow>
                  Some ((bufferLogs mx i
                           (s1\<lparr>contexts := (contexts s1)[i := Some (c\<lparr>entry := e, bufferedEntries := r\<rparr>)]\<rparr>))
                        \<lparr>heap := heap s @ [i], driver := Running, stack := stack s + 1\<rparr>))))"

text \<open>
  The continuation of CASE 4 (lines 102-111), up to the call of \<open>processNextLogEntry\<close>,
  which it makes from its own frame.
\<close>

definition directFetched :: "int \<Rightarrow> nat \<Rightarrow> LogEntry option \<Rightarrow> state \<Rightarrow> state option" where
  "directFetched mx i v s =
     (case contexts s ! i of
        None \<Rightarrow> None
      | Some c \<Rightarrow>
          (case v of
             None \<Rightarrow> Some (s\<lparr>driver := Running, stack := 1\<rparr>)
           | Some e \<Rightarrow>
               Some ((bufferLogs mx i (s\<lparr>contexts := (contexts s)[i := Some (c\<lparr>entry := e\<rparr>)]\<rparr>))
                     \<lparr>heap := heap s @ [i], driver := Running, stack := 1\<rparr>)))"

text \<open>
  The comparator of the heap (lines 14-16): context \<open>i\<close> may be the one \<open>heap.pop()\<close>
  returns when no context in the heap has an earlier \<open>entry.date\<close>. Which of several
  contexts with the same date is returned is left open.
\<close>

definition earliest :: "state \<Rightarrow> nat \<Rightarrow> bool" where
  "earliest s i =
     (case contexts s ! i of
        None \<Rightarrow> False
      | Some c \<Rightarrow>
          list_all (\<lambda>j. case contexts s ! j of
                          None \<Rightarrow> True
                        | Some cj \<Rightarrow> date (entry c) \<le> date (entry cj)) (heap s))"

text \<open>
  The body of one call of \<open>processNextLogEntry\<close> (lines 65-112) in which \<open>heap.pop()\<close>
  returns context \<open>i\<close>, up to the next call of \<open>processNextLogEntry\<close> or the promise it
  returns. The call has put its own frame on the \<open>stack s\<close> frames that were there. In
  CASE 1 it calls \<open>getNextEntry\<close> (line 85), in CASE 3 \<open>processNextLogEntry\<close> (line 99),
  both from this frame; in CASE 2 and CASE 4 it returns a promise, and so do all the
  calls beneath it.
\<close>

definition processContext :: "int \<Rightarrow> int \<Rightarrow> nat \<Rightarrow> state \<Rightarrow> state option" where
  "processContext lim mx i s =
     (case contexts s ! i of
        None \<Rightarrow> None
      | Some c \<Rightarrow>
          let s1 = s\<lparr>heap := remove1 i (heap s), printer := printer s @ [Print (entry c)],
                     stack := stack s + 1\<rparr> in
          if bufferedEntries c \<noteq> [] then getNextEntry lim mx i s1
          else if nextEntryPromise c = Some Pending then Some (s1\<lparr>driver := AwaitPrefetch i\<rparr>)
          else if nextEntryPromise c = Some Rejected then Some (s1\<lparr>driver := Failed\<rparr>)
          else if drained c then Some s1
          else Some (s1\<lparr>logSources := (logSources s1)[i := popAsync Direct (logSources s1 ! i)],
                        driver := AwaitDirect i\<rparr>))"

text \<open>
  The continuation of CASE 2 (lines 89-95); it calls \<open>processNextLogEntry\<close> or
  \<open>getNextEntry\<close> from its own frame.
\<close>

definition resumed :: "int \<Rightarrow> int \<Rightarrow> nat \<Rightarrow> state \<Rightarrow> state option" where
  "resumed lim mx i s =
     (case contexts s ! i of
        None \<Rightarrow> None
      | Some c \<Rightarrow>
          if bufferedEntries c = [] \<and> drained c then Some (s\<lparr>driver := Running, stack := 1\<rparr>)
          else getNextEntry lim mx i (s\<lparr>stack := 1\<rparr>))"

text \<open>
  The first outstanding promise of a source that carries the continuation \<open>k\<close>, and the
  promises left.
\<close>

fun take_fetch :: "kind \<Rightarrow> (kind \<times> 'a) list \<Rightarrow> ('a \<times> (kind \<times> 'a) list) option" where
  "take_fetch k [] = None"
| "take_fetch k (f # fs) =
     (if fst f = k then Some (snd f, fs)
      else (case take_fetch k fs of
              None \<Rightarrow> None
            | Some (v, r) \<Rightarrow> Some (v, f # r)))"

text \<open>
  The steps of a run: a fetch of source \<open>i\<close> is fulfilled or rejected and its
  continuation runs; \<open>Promise.all(promises)\<close> is fulfilled and its continuation
  \<open>processNextLogEntry\<close> is due (line 113); \<open>processNextLogEntry\<close> is called and finds the
  heap empty (\<open>None\<close>) or pops context \<open>i\<close>; the continuation of CASE 2 runs. The order in
  which fetches settle is not under the control of the module, so a run is a list of
  events. A call of \<open>processNextLogEntry\<close> made by \<open>getNextEntry\<close> (line 80) or in CASE 3
  (line 99) is an event of its own although it happens in the same turn of the event
  loop as its caller: the frames beneath it have nothing left to do but hand on what it
  returns, and \<open>stack\<close> keeps their number.
\<close>

datatype event =
  Fulfil nat kind | Reject nat kind | Start | ProcessNext "nat option" | Resume

text \<open>
  A fetch of source \<open>i\<close> settles: its promise leaves \<open>outstanding\<close>, and the history
  records it.
\<close>

definition settle :: "nat \<Rightarrow> (kind \<times> LogEntry option) list \<Rightarrow> settlement \<Rightarrow> state \<Rightarrow> state" where
  "settle i rest r s =
     s\<lparr>logSources := (logSources s)[i := (logSources s ! i)\<lparr>outstanding := rest\<rparr>],
       settled := settled s @ [(i, r)]\<rparr>"

text \<open>Every promise of the array \<open>promises\<close> (line 46) is fulfilled.\<close>

definition no_initial_outstanding :: "state \<Rightarrow> bool" where
  "no_initial_outstanding s =
     list_all (\<lambda>src. list_all (\<lambda>f. fst f \<noteq> Initial) (outstanding src)) (logSources s)"

text \<open>
  The effect of one event; \<open>None\<close> when the event cannot happen in the state (no such
  fetch is outstanding, or the driver is elsewhere). \<open>lim\<close> is the number of frames the
  call stack holds and \<open>mx\<close> the ceiling. A call of \<open>processNextLogEntry\<close> for which the
  call stack has no frame left throws a \<open>RangeError\<close> before anything of its body runs.
\<close>

fun step :: "int \<Rightarrow> int \<Rightarrow> event \<Rightarrow> state \<Rightarrow> state option" where
  "step lim mx (Fulfil i k) s =
     (if i < length (logSources s) \<and> i < length (contexts s) then
        (case take_fetch k (outstanding (logSources s ! i)) of
           None \<Rightarrow> None
         | Some (v, rest) \<Rightarrow>
             let s1 = settle i rest (Fulfilled v) s in
             (case k of
                Initial \<Rightarrow> Some (initialFetched mx i v s1)
              | Prefetch \<Rightarrow> prefetched mx i v s1
              | Direct \<Rightarrow> if driver s = AwaitDirect i then directFetched mx i v s1 else None))
      else None)"
| "step lim mx (Reject i k) s =
     (if i < length (logSources s) \<and> i < length (contexts s) then
        (case take_fetch k (outstanding (logSources s ! i)) of
           None \<Rightarrow> None
         | Some (v, rest) \<Rightarrow>
             let s1 = settle i rest RejectedFetch s in
             (case k of
                Initial \<Rightarrow> Some (if driver s = NotStarted then s1\<lparr>driver := Failed\<rparr> else s1)
              | Prefetch \<Rightarrow>
                  (case contexts s ! i of
                     None \<Rightarrow> None
                   | Some c \<Rightarrow>
                       let s2 = s1\<lparr>contexts := (contexts s)[i := Some (c\<lparr>nextEntryPromise := Some Rejected\<rparr>)]\<rparr>
                       in Some (if driver s = AwaitPrefetch i then s2\<lparr>driver := Failed\<rparr> else s2))
              | Direct \<Rightarrow> if driver s = AwaitDirect i then Some (s1\<lparr>driver := Failed\<rparr>) else None))
      else None)"
| "step lim mx Start s =
     (if driver s = NotStarted \<and> no_initial_outstanding s
      then Some (s\<lparr>driver := Running, stack := 0\<rparr>)
      else None)"
| "step lim mx (ProcessNext None) s =
     (if driver s = Running \<and> heap s = []
      then (if lim \<le> stack s then Some (s\<lparr>driver := Failed\<rparr>)
            else Some (s\<lparr>printer := printer s @ [Done], driver := Finished\<rparr>))
      else None)"
| "step lim mx (ProcessNext (Some i)) s =
     (if driver s = Running \<and> i \<in> set (heap s) \<and> i < length (contexts s)
         \<and> i < length (logSources s) \<and> earliest s i
      then (if lim \<le> stack s then Some (s\<lparr>driver := Failed\<rparr>)
            else processContext lim mx i s)
      else None)"
| "step lim mx Resume s =
     (case driver s of
        Resumable i \<Rightarrow> if i < length (contexts s) \<and> i < length (logSources s)
                        then resumed lim mx i s else None
      | _ \<Rightarrow> None)"

text \<open>A run: the events in the order in which they happen.\<close>

fun exec :: "int \<Rightarrow> int \<Rightarrow> event list \<Rightarrow> state \<Rightarrow> state option" where
  "exec lim mx [] s = Some s"
| "exec lim mx (ev # evs) s =
     (case step lim mx ev s of
        None \<Rightarrow> None
      | Some s' \<Rightarrow> exec lim mx evs s')"

text \<open>
  The state when \<open>module.exports\<close> returns (line 113): the loop of lines 47-62 has called
  \<open>popAsync()\<close> once on every source, nothing has settled.
\<close>

definition init :: "LogEntry list list \<Rightarrow> state" where
  "init srcs =
     \<lparr>logSources = map (\<lambda>es. popAsync Initial \<lparr>remaining = es, outstanding = []\<rparr>) srcs,
      contexts = map (\<lambda>es. None) srcs,
      heap = [],
      numLogEntriesBuffered = 0,
      driver = NotStarted,
      printer = [],
      settled = [],
      stack = 0\<rparr>"

text \<open>The entries passed to \<open>printer.print\<close> so far, in order.\<close>

definition printed :: "state \<Rightarrow> LogEntry list" where
  "printed s = concat (map (\<lambda>c. case c of Print e \<Rightarrow> [e] | Done \<Rightarrow> []) (printer s))"

text \<open>The number of entries in the read-ahead buffers of all contexts.\<close>

definition totalBuffered :: "state \<Rightarrow> nat" where
  "totalBuffered s =
     sum_list (map (\<lambda>c. case c of None \<Rightarrow> 0 | Some c \<Rightarrow> length (bufferedEntries c)) (contexts s))"

section \<open>The synchronous merge model\<close>

text \<open>
  Modelled from the spec: the blocking form of the log source, \<open>pop() -> Entry | None\<close>.
  The source hands out its next entry, or \<open>None\<close> (JavaScript \<open>false\<close>) when it has none.
\<close>

definition pop :: "LogEntry list \<Rightarrow> LogEntry option \<times> LogEntry list" where
  "pop src = (case src of [] \<Rightarrow> (None, []) | e # r \<Rightarrow> (Some e, r))"

text \<open>
  The state of the synchronous merge (lines 120-151): what every source has left, the
  objects \<open>{source, entry}\<close> in the heap, and the calls received by the sink.
\<close>

record syncState =
  syncSources :: "LogEntry list list"
  syncHeap :: "(nat \<times> LogEntry) list"
  syncPrinter :: "sink_call list"

text \<open>\<open>source.pop()\<close> on source \<open>i\<close>, and the push of lines 130-135 and 142-147.\<close>

definition popAndPush :: "nat \<Rightarrow> syncState \<Rightarrow> syncState" where
  "popAndPush i s =
     (case pop (syncSources s ! i) of
        (None, r) \<Rightarrow> s\<lparr>syncSources := (syncSources s)[i := r]\<rparr>
      | (Some logEntry, r) \<Rightarrow>
          s\<lparr>syncSources := (syncSources s)[i := r], syncHeap := syncHeap s @ [(i, logEntry)]\<rparr>)"

text \<open>The loop of lines 128-136.\<close>

definition syncStart :: "LogEntry list list \<Rightarrow> syncState" where
  "syncStart srcs =
     fold popAndPush [0..<length srcs] \<lparr>syncSources = srcs, syncHeap = [], syncPrinter = []\<rparr>"

text \<open>
  The comparator of the heap (lines 124-126): \<open>heap.pop()\<close> may return the object \<open>x\<close>
  when it is in the heap and no object in the heap has an earlier \<open>entry.date\<close>.
\<close>

definition syncEarliest :: "(nat \<times> LogEntry) list \<Rightarrow> nat \<times> LogEntry \<Rightarrow> bool" where
  "syncEarliest h x = (x \<in> set h \<and> list_all (\<lambda>y. date (snd x) \<le> date (snd y)) h)"

text \<open>One iteration of the loop of lines 138-148 in which \<open>heap.pop()\<close> returns \<open>x\<close>.\<close>

definition syncIterate :: "nat \<times> LogEntry \<Rightarrow> syncState \<Rightarrow> syncState option" where
  "syncIterate x s =
     (if syncEarliest (syncHeap s) x \<and> fst x < length (syncSources s)
      then Some (popAndPush (fst x)
                   (s\<lparr>syncHeap := remove1 x (syncHeap s),
                      syncPrinter := syncPrinter s @ [Print (snd x)]\<rparr>))
      else None)"

text \<open>
  The loop of lines 138-148 and \<open>printer.done()\<close>, for a given sequence of results of
  \<open>heap.pop()\<close>; \<open>None\<close> when the heap could not have returned them or is not empty after
  them.
\<close>

fun syncLoop :: "(nat \<times> LogEntry) list \<Rightarrow> syncState \<Rightarrow> sink_call list option" where
  "syncLoop [] s = (if syncHeap s = [] then Some (syncPrinter s @ [Done]) else None)"
| "syncLoop (x # xs) s =
     (case syncIterate x s of
        None \<Rightarrow> None
      | Some s' \<Rightarrow> syncLoop xs s')"

text \<open>The synchronous merge for a given sequence of results of \<open>heap.pop()\<close>: the calls the sink receives.\<close>

definition syncMerge :: "(nat \<times> LogEntry) list \<Rightarrow> LogEntry list list \<Rightarrow> sink_call list option" where
  "syncMerge picks srcs = syncLoop picks (syncStart srcs)"

text \<open>The entries among the calls received by a sink.\<close>

definition entries :: "sink_call list \<Rightarrow> LogEntry list" where
  "entries out = concat (map (\<lambda>c. case c of Print e \<Rightarrow> [e] | Done \<Rightarrow> []) out)"

text \<open>The entries of source \<open>j\<close> that the synchronous merge has not printed: its object in the heap and what the source has left.\<close>

definition syncUnprinted :: "syncState \<Rightarrow> nat \<Rightarrow> LogEntry list" where
  "syncUnprinted s j = map snd (filter (\<lambda>x. fst x = j) (syncHeap s)) @ syncSources s ! j"

text \<open>Each source has at most one object in the heap.\<close>

definition syncShape :: "nat \<Rightarrow> syncState \<Rightarrow> bool" where
  "syncShape n s =
     (length (syncSources s) = n
      \<and> distinct (map fst (syncHeap s))
      \<and> (\<forall>x \<in> set (syncHeap s). fst x < n))"

text \<open>
  The invariant of the loop of lines 138-148: a source without an object in the heap is
  exhausted, the printed entries are ascending and are followed in ascending order by the
  unprinted entries of every source, and no entry is lost.
\<close>

definition syncInv :: "LogEntry list list \<Rightarrow> syncState \<Rightarrow> bool" where
  "syncInv srcs s =
     (syncShape (length srcs) s
      \<and> (\<forall>j < length srcs. j \<notin> fst ` set (syncHeap s) \<longrightarrow> syncSources s ! j = [])
      \<and> syncPrinter s = map Print (entries (syncPrinter s))
      \<and> sorted (map date (entries (syncPrinter s)))
      \<and> (\<forall>j < length srcs. sorted (map date (entries (syncPrinter s) @ syncUnprinted s j)))
      \<and> (\<Sum>j < length srcs. mset (syncUnprinted s j)) + mset (entries (syncPrinter s))
          = mset (concat srcs))"

section \<open>Definitions for the proofs\<close>

text \<open>The driver is busy with context \<open>j\<close>: it has popped it and waits for one of its fetches.\<close>

definition on_src :: "driver \<Rightarrow> nat \<Rightarrow> bool" where
  "on_src d j = (d = AwaitPrefetch j \<or> d = Resumable j \<or> d = AwaitDirect j)"

text \<open>
  Shape of a state: one context slot per source, every context at most once in the heap,
  an empty heap once the driver has returned, and no \<open>undefined\<close> head.
\<close>

definition wf :: "state \<Rightarrow> bool" where
  "wf s =
     (length (contexts s) = length (logSources s)
      \<and> distinct (heap s)
      \<and> (\<forall>i \<in> set (heap s). i < length (logSources s))
      \<and> (\<forall>i. on_src (driver s) i \<longrightarrow> i < length (logSources s))
      \<and> (driver s = Finished \<longrightarrow> heap s = [])
      \<and> driver s \<noteq> UndefinedHead)"

text \<open>
  What holds of one source \<open>src\<close>, its context \<open>ctx\<close>, the presence \<open>h\<close> of the context
  in the heap, the driver \<open>d\<close> and the fact \<open>sg\<close> that the source has delivered its
  exhaustion signal: at most one fetch is outstanding, and it is the one the context or the
  driver expects; a context that is neither in the heap nor with the driver is finished.
\<close>

definition src_ok ::
  "nat \<Rightarrow> LogSource \<Rightarrow> sourceContext option \<Rightarrow> bool \<Rightarrow> driver \<Rightarrow> bool \<Rightarrow> bool" where
  "src_ok j src ctx h d sg =
     (let outs = outstanding src in
      length outs \<le> 1
      \<and> ((\<exists>k. (k, None) \<in> set outs) \<longrightarrow> remaining src = [])
      \<and> (d \<noteq> NotStarted \<and> d \<noteq> Failed \<longrightarrow> (\<forall>f \<in> set outs. fst f \<noteq> Initial))
      \<and> (\<not> h \<and> \<not> on_src d j \<and> d \<noteq> Failed \<and> (\<forall>f \<in> set outs. fst f \<noteq> Initial)
          \<longrightarrow> outs = [] \<and> remaining src = [] \<and> sg
              \<and> (case ctx of
                    None \<Rightarrow> True
                  | Some c \<Rightarrow> bufferedEntries c = [] \<and> nextEntryPromise c = None))
      \<and> (case ctx of
            None \<Rightarrow> \<not> h \<and> \<not> on_src d j \<and> (\<forall>f \<in> set outs. fst f = Initial)
          | Some c \<Rightarrow>
              (\<forall>f \<in> set outs. fst f \<noteq> Initial)
              \<and> ((\<exists>v. (Prefetch, v) \<in> set outs) \<longleftrightarrow> nextEntryPromise c = Some Pending)
              \<and> ((\<exists>v. (Direct, v) \<in> set outs) \<longleftrightarrow> d = AwaitDirect j)
              \<and> (drained c \<longrightarrow> nextEntryPromise c = None \<and> remaining src = [] \<and> sg)
              \<and> (d = AwaitDirect j \<longrightarrow>
                    bufferedEntries c = [] \<and> \<not> drained c \<and> nextEntryPromise c = None)
              \<and> (d = AwaitPrefetch j \<longrightarrow>
                    bufferedEntries c = [] \<and> nextEntryPromise c = Some Pending)
              \<and> (d = Resumable j \<longrightarrow> bufferedEntries c \<noteq> [] \<or> drained c)
              \<and> (on_src d j \<longrightarrow> \<not> h)))"

text \<open>The same, read off a state for source \<open>j\<close>.\<close>

definition src_inv :: "state \<Rightarrow> nat \<Rightarrow> bool" where
  "src_inv s j =
     src_ok j (logSources s ! j) (contexts s ! j) (j \<in> set (heap s)) (driver s)
       ((j, Fulfilled None) \<in> set (settled s))"

text \<open>The invariant of a run.\<close>

definition Inv :: "state \<Rightarrow> bool" where
  "Inv s = (wf s \<and> (\<forall>j < length (logSources s). src_inv s j))"

text \<open>The object literal of lines 52-57.\<close>

definition freshContext :: "LogEntry \<Rightarrow> sourceContext" where
  "freshContext e = \<lparr>entry = e, drained = False, bufferedEntries = [], nextEntryPromise = None\<rparr>"

text \<open>
  The events of \<open>step\<close> with their effect written out case by case, as they happen in a
  state that satisfies the invariant: one rule for every path through the continuations
  and through \<open>processNextLogEntry\<close>, and one for every call that can find the call stack
  full. The rules leave \<open>stack\<close> as it is: no property of a state proved from them
  depends on it.
\<close>

inductive trans :: "int \<Rightarrow> event \<Rightarrow> state \<Rightarrow> state \<Rightarrow> bool" for mx where
  t_init_none:
    "\<lbrakk>i < length (logSources s); contexts s ! i = None;
      outstanding (logSources s ! i) = [(Initial, None)]\<rbrakk>
     \<Longrightarrow> trans mx (Fulfil i Initial) s (settle i [] (Fulfilled None) s)"
| t_init_some:
    "\<lbrakk>i < length (logSources s); contexts s ! i = None;
      outstanding (logSources s ! i) = [(Initial, Some e)]\<rbrakk>
     \<Longrightarrow> trans mx (Fulfil i Initial) s
           (bufferLogs mx i
              ((settle i [] (Fulfilled (Some e)) s)
                 \<lparr>contexts := (contexts s)[i := Some (freshContext e)], heap := heap s @ [i]\<rparr>))"
| t_prefetch:
    "\<lbrakk>i < length (logSources s); contexts s ! i = Some c;
      outstanding (logSources s ! i) = [(Prefetch, v)];
      c' = (case v of Some e \<Rightarrow> c\<lparr>bufferedEntries := bufferedEntries c @ [e]\<rparr>
                    | None \<Rightarrow> c\<lparr>drained := True\<rparr>)\<rbrakk>
     \<Longrightarrow> trans mx (Fulfil i Prefetch) s
           (bufferLogs mx i
              ((settle i [] (Fulfilled v) s)
                 \<lparr>contexts := (contexts s)[i := Some (c'\<lparr>nextEntryPromise := None\<rparr>)],
                  driver := (if driver s = AwaitPrefetch i then Resumable i else driver s)\<rparr>))"
| t_direct_none:
    "\<lbrakk>i < length (logSources s); contexts s ! i = Some c; driver s = AwaitDirect i;
      outstanding (logSources s ! i) = [(Direct, None)]\<rbrakk>
     \<Longrightarrow> trans mx (Fulfil i Direct) s ((settle i [] (Fulfilled None) s)\<lparr>driver := Running\<rparr>)"
| t_direct_some:
    "\<lbrakk>i < length (logSources s); contexts s ! i = Some c; driver s = AwaitDirect i;
      outstanding (logSources s ! i) = [(Direct, Some e)]\<rbrakk>
     \<Longrightarrow> trans mx (Fulfil i Direct) s
           (bufferLogs mx i
              ((settle i [] (Fulfilled (Some e)) s)
                 \<lparr>contexts := (contexts s)[i := Some (c\<lparr>entry := e\<rparr>)],
                  heap := heap s @ [i], driver := Running\<rparr>))"
| t_reject_initial:
    "\<lbrakk>i < length (logSources s); contexts s ! i = None;
      outstanding (logSources s ! i) = [(Initial, v)]\<rbrakk>
     \<Longrightarrow> trans mx (Reject i Initial) s
           ((settle i [] RejectedFetch s)
              \<lparr>driver := (if driver s = NotStarted then Failed else driver s)\<rparr>)"
| t_reject_prefetch:
    "\<lbrakk>i < length (logSources s); contexts s ! i = Some c;
      outstanding (logSources s ! i) = [(Prefetch, v)]\<rbrakk>
     \<Longrightarrow> trans mx (Reject i Prefetch) s
           ((settle i [] RejectedFetch s)
              \<lparr>contexts := (contexts s)[i := Some (c\<lparr>nextEntryPromise := Some Rejected\<rparr>)],
               driver := (if driver s = AwaitPrefetch i then Failed else driver s)\<rparr>)"
| t_reject_direct:
    "\<lbrakk>i < length (logSources s); contexts s ! i = Some c; driver s = AwaitDirect i;
      outstanding (logSources s ! i) = [(Direct, v)]\<rbrakk>
     \<Longrightarrow> trans mx (Reject i Direct) s ((settle i [] RejectedFetch s)\<lparr>driver := Failed\<rparr>)"
| t_start:
    "\<lbrakk>driver s = NotStarted; no_initial_outstanding s\<rbrakk>
     \<Longrightarrow> trans mx Start s (s\<lparr>driver := Running\<rparr>)"
| t_done:
    "\<lbrakk>driver s = Running; heap s = []\<rbrakk>
     \<Longrightarrow> trans mx (ProcessNext None) s (s\<lparr>printer := printer s @ [Done], driver := Finished\<rparr>)"
| t_case1:
    "\<lbrakk>i < length (logSources s); driver s = Running; i \<in> set (heap s); earliest s i;
      contexts s ! i = Some c; bufferedEntries c = e # r\<rbrakk>
     \<Longrightarrow> trans mx (ProcessNext (Some i)) s
           (bufferLogs mx i
              (s\<lparr>printer := printer s @ [Print (entry c)],
                 numLogEntriesBuffered := numLogEntriesBuffered s - 1,
                 contexts := (contexts s)[i := Some (c\<lparr>entry := e, bufferedEntries := r\<rparr>)],
                 heap := remove1 i (heap s) @ [i], driver := Running\<rparr>))"
| t_case2:
    "\<lbrakk>i < length (logSources s); driver s = Running; i \<in> set (heap s); earliest s i;
      contexts s ! i = Some c; bufferedEntries c = []; nextEntryPromise c = Some Pending\<rbrakk>
     \<Longrightarrow> trans mx (ProcessNext (Some i)) s
           (s\<lparr>heap := remove1 i (heap s), printer := printer s @ [Print (entry c)],
              driver := AwaitPrefetch i\<rparr>)"
| t_case2_rejected:
    "\<lbrakk>i < length (logSources s); driver s = Running; i \<in> set (heap s); earliest s i;
      contexts s ! i = Some c; bufferedEntries c = []; nextEntryPromise c = Some Rejected\<rbrakk>
     \<Longrightarrow> trans mx (ProcessNext (Some i)) s
           (s\<lparr>heap := remove1 i (heap s), printer := printer s @ [Print (entry c)],
              driver := Failed\<rparr>)"
| t_case3:
    "\<lbrakk>i < length (logSources s); driver s = Running; i \<in> set (heap s); earliest s i;
      contexts s ! i = Some c; bufferedEntries c = []; nextEntryPromise c = None; drained c\<rbrakk>
     \<Longrightarrow> trans mx (ProcessNext (Some i)) s
           (s\<lparr>heap := remove1 i (heap s), printer := printer s @ [Print (entry c)]\<rparr>)"
| t_case4:
    "\<lbrakk>i < length (logSources s); driver s = Running; i \<in> set (heap s); earliest s i;
      contexts s ! i = Some c; bufferedEntries c = []; nextEntryPromise c = None; \<not> drained c\<rbrakk>
     \<Longrightarrow> trans mx (ProcessNext (Some i)) s
           (s\<lparr>heap := remove1 i (heap s), printer := printer s @ [Print (entry c)],
              logSources := (logSources s)[i := popAsync Direct (logSources s ! i)],
              driver := AwaitDirect i\<rparr>)"
| t_resume_drop:
    "\<lbrakk>i < length (logSources s); driver s = Resumable i; contexts s ! i = Some c;
      bufferedEntries c = []; drained c\<rbrakk>
     \<Longrightarrow> trans mx Resume s (s\<lparr>driver := Running\<rparr>)"
| t_resume_next:
    "\<lbrakk>i < length (logSources s); driver s = Resumable i; contexts s ! i = Some c;
      bufferedEntries c = e # r\<rbrakk>
     \<Longrightarrow> trans mx Resume s
           (bufferLogs mx i
              (s\<lparr>numLogEntriesBuffered := numLogEntriesBuffered s - 1,
                 contexts := (contexts s)[i := Some (c\<lparr>entry := e, bufferedEntries := r\<rparr>)],
                 heap := heap s @ [i], driver := Running\<rparr>))"
| t_abort_done:
    "\<lbrakk>driver s = Running; heap s = []\<rbrakk>
     \<Longrightarrow> trans mx (ProcessNext None) s (s\<lparr>driver := Failed\<rparr>)"
| t_abort_call:
    "\<lbrakk>i < length (logSources s); driver s = Running; i \<in> set (heap s); earliest s i\<rbrakk>
     \<Longrightarrow> trans mx (ProcessNext (Some i)) s (s\<lparr>driver := Failed\<rparr>)"
| t_abort_case1:
    "\<lbrakk>i < length (logSources s); driver s = Running; i \<in> set (heap s); earliest s i;
      contexts s ! i = Some c; bufferedEntries c = e # r\<rbrakk>
     \<Longrightarrow> trans mx (ProcessNext (Some i)) s
           (s\<lparr>heap := remove1 i (heap s), printer := printer s @ [Print (entry c)],
              driver := Failed\<rparr>)"
| t_abort_resume:
    "\<lbrakk>i < length (logSources s); driver s = Resumable i; contexts s ! i = Some c;
      bufferedEntries c = e # r\<rbrakk>
     \<Longrightarrow> trans mx Resume s (s\<lparr>driver := Failed\<rparr>)"

text \<open>
  Scenario D: two sources with entries at dates 1, 3 and 2, 4, run with a ceiling of 1; and
  one order in which its fetches can settle.
\<close>

definition scenarioD :: "LogEntry list list" where
  "scenarioD = [[\<lparr>date = 1, msg = ''a1''\<rparr>, \<lparr>date = 3, msg = ''a2''\<rparr>],
                [\<lparr>date = 2, msg = ''b1''\<rparr>, \<lparr>date = 4, msg = ''b2''\<rparr>]]"

definition scheduleD :: "event list" where
  "scheduleD =
     [Fulfil 0 Initial, Fulfil 1 Initial, Start, ProcessNext (Some 0), Fulfil 0 Prefetch, Resume,
      ProcessNext (Some 1), Fulfil 1 Direct, ProcessNext (Some 0), Fulfil 0 Prefetch, Resume,
      ProcessNext (Some 1), Fulfil 1 Direct, ProcessNext None]"

text \<open>
  The number of frames of the call stack used in the examples: the order of magnitude of
  what Node.js allows with its default stack size.
\<close>

definition stackFrames :: int where
  "stackFrames = 10000"

text \<open>
  What a context contributes to \<open>numLogEntriesBuffered\<close>: its buffered entries, one for a
  prefetch that has been issued and whose continuation has not run (it is pending, or it
  was rejected), and one for the prefetch that brought the exhaustion signal.
\<close>

definition weight :: "sourceContext option \<Rightarrow> int" where
  "weight ctx =
     (case ctx of
        None \<Rightarrow> 0
      | Some c \<Rightarrow> int (length (bufferedEntries c))
                  + (if nextEntryPromise c = None then 0 else 1)
                  + (if drained c then 1 else 0))"

definition counted :: "state \<Rightarrow> bool" where
  "counted s = (numLogEntriesBuffered s = sum_list (map weight (contexts s)))"

text \<open>The prefetches of \<open>bufferLogs\<close> that have not settled, over all sources.\<close>

definition prefetchesInFlight :: "state \<Rightarrow> nat" where
  "prefetchesInFlight s =
     sum_list (map (\<lambda>src. length (filter (\<lambda>f. fst f = Prefetch) (outstanding src))) (logSources s))"

text \<open>The contexts that exist, each holding one head entry in \<open>entry\<close>.\<close>

definition headsHeld :: "state \<Rightarrow> nat" where
  "headsHeld s = length (filter (\<lambda>c. c \<noteq> None) (contexts s))"

text \<open>The entries that the outstanding promises of a source will deliver.\<close>

definition values_of :: "(kind \<times> LogEntry option) list \<Rightarrow> LogEntry list" where
  "values_of outs = concat (map (\<lambda>f. case snd f of None \<Rightarrow> [] | Some e \<Rightarrow> [e]) outs)"

text \<open>
  The entries of one source that have not been printed, in the order in which the source
  hands them out: the head entry while the context is in the heap, the read-ahead buffer,
  the entries in flight, the entries still in the source.
\<close>

definition pend :: "LogSource \<Rightarrow> sourceContext option \<Rightarrow> bool \<Rightarrow> LogEntry list" where
  "pend src ctx h =
     (case ctx of
        None \<Rightarrow> []
      | Some c \<Rightarrow> (if h then [entry c] else []) @ bufferedEntries c)
     @ values_of (outstanding src) @ remaining src"

definition unprinted :: "state \<Rightarrow> nat \<Rightarrow> LogEntry list" where
  "unprinted s j = pend (logSources s ! j) (contexts s ! j) (j \<in> set (heap s))"

text \<open>
  The three effects an event can have on the printed and the unprinted entries. A call of
  \<open>processNextLogEntry\<close> prints an entry, or nothing when the call stack is full.
\<close>

definition quiet :: "state \<Rightarrow> state \<Rightarrow> bool" where
  "quiet s s' =
     (printed s' = printed s
      \<and> (\<forall>j < length (logSources s). unprinted s' j = unprinted s j))"

definition prints :: "nat \<Rightarrow> state \<Rightarrow> state \<Rightarrow> bool" where
  "prints i s s' =
     (i < length (logSources s) \<and> i \<in> set (heap s) \<and> earliest s i \<and> driver s = Running
      \<and> (\<exists>c. contexts s ! i = Some c
               \<and> printed s' = printed s @ [entry c]
               \<and> unprinted s i = entry c # unprinted s' i)
      \<and> (\<forall>j < length (logSources s). j \<noteq> i \<longrightarrow> unprinted s' j = unprinted s j))"

definition loses :: "nat \<Rightarrow> state \<Rightarrow> state \<Rightarrow> bool" where
  "loses i s s' =
     (i < length (logSources s) \<and> printed s' = printed s
      \<and> (\<exists>A v B. unprinted s i = A @ v @ B \<and> unprinted s' i = A @ B)
      \<and> (\<forall>j < length (logSources s). j \<noteq> i \<longrightarrow> unprinted s' j = unprinted s j))"

definition effect :: "event \<Rightarrow> state \<Rightarrow> state \<Rightarrow> bool" where
  "effect ev s s' =
     (case ev of
        Reject i k \<Rightarrow> loses i s s'
      | ProcessNext (Some i) \<Rightarrow> prints i s s' \<or> quiet s s'
      | _ \<Rightarrow> quiet s s')"

text \<open>
  The ordering invariant: the printed entries are ascending, and for every source they
  are followed in ascending order by the unprinted entries of that source.
\<close>

definition ordered :: "state \<Rightarrow> bool" where
  "ordered s =
     (sorted (map date (printed s))
      \<and> (\<forall>j < length (logSources s). sorted (map date (printed s @ unprinted s j))))"

fun is_reject :: "event \<Rightarrow> bool" where
  "is_reject (Reject i k) = True"
| "is_reject ev = False"

text \<open>A fetch has been rejected at some point of the run.\<close>

definition rejection_seen :: "state \<Rightarrow> bool" where
  "rejection_seen s = list_ex (\<lambda>x. snd x = RejectedFetch) (settled s)"

text \<open>Some context holds a rejected promise in \<open>nextEntryPromise\<close>.\<close>

definition holds_rejected :: "state \<Rightarrow> bool" where
  "holds_rejected s =
     list_ex (\<lambda>ctx. case ctx of None \<Rightarrow> False | Some c \<Rightarrow> nextEntryPromise c = Some Rejected)
       (contexts s)"

definition doomed :: "state \<Rightarrow> bool" where
  "doomed s = (driver s = Failed \<or> holds_rejected s)"

text \<open>All entries the run still has to print or has printed.\<close>

definition total :: "state \<Rightarrow> LogEntry multiset" where
  "total s = (\<Sum>j < length (logSources s). mset (unprinted s j)) + mset (printed s)"

text \<open>The calls the sink has received: the printed entries, then \<open>done()\<close> once the driver has returned.\<close>

definition sink_shape :: "state \<Rightarrow> bool" where
  "sink_shape s =
     (printer s = map Print (printed s) @ (if driver s = Finished then [Done] else []))"

text \<open>What grows with every event of a run: settled fetches, printed entries, and the stage of the driver.\<close>

fun phase :: "driver \<Rightarrow> nat" where
  "phase Running = 1"
| "phase UndefinedHead = 1"
| "phase Failed = 2"
| "phase Finished = 2"
| "phase d = 0"

definition progress :: "state \<Rightarrow> nat" where
  "progress s = length (settled s) + 2 * length (printed s) + phase (driver s)"

fun slack :: "driver \<Rightarrow> int" where
  "slack (AwaitPrefetch i) = 1"
| "slack (Resumable i) = 1"
| "slack d = 0"

definition fetchesOutstanding :: "state \<Rightarrow> int" where
  "fetchesOutstanding s = sum_list (map (\<lambda>src. int (length (outstanding src))) (logSources s))"

text \<open>
  Every fetch is paid for: by the initial loop, by an increment of the counter, or by a
  printed entry.
\<close>

definition budget :: "state \<Rightarrow> bool" where
  "budget s =
     (int (length (settled s)) + fetchesOutstanding s + slack (driver s)
      \<le> int (length (logSources s)) + numLogEntriesBuffered s + 2 * int (length (printed s)))"

text \<open>A bound on the number of events of a run.\<close>

definition run_bound :: "int \<Rightarrow> LogEntry list list \<Rightarrow> nat" where
  "run_bound mx srcs = length srcs + nat mx + 4 * length (concat srcs) + 2"

text \<open>
  A run of scenario D with the ceiling of the module in which the prefetch of the second
  source is rejected while the driver, having printed the first entry, waits for the
  prefetch of the first source (CASE 2).
\<close>

definition scheduleE :: "event list" where
  "scheduleE =
     [Fulfil 0 Initial, Fulfil 1 Initial, Start, ProcessNext (Some 0), Reject 1 Prefetch,
      Fulfil 0 Prefetch, Resume, ProcessNext (Some 1)]"

text \<open>
  No prefetch of \<open>bufferLogs\<close> has ended without an entry so far: no context is marked
  \<open>drained\<close> and none holds a rejected promise.
\<close>

definition prefetches_delivered :: "state \<Rightarrow> bool" where
  "prefetches_delivered s =
     list_all (\<lambda>ctx. case ctx of
                       None \<Rightarrow> True
                     | Some c \<Rightarrow> \<not> drained c \<and> nextEntryPromise c \<noteq> Some Rejected)
       (contexts s)"

text \<open>
  The prefetches of \<open>bufferLogs\<close> that have ended without an entry, with the exhaustion
  signal or rejected: each leaves its mark on its context.
\<close>

definition ended_without_entry :: "sourceContext option \<Rightarrow> bool" where
  "ended_without_entry ctx =
     (case ctx of None \<Rightarrow> False | Some c \<Rightarrow> drained c \<or> nextEntryPromise c = Some Rejected)"

definition prefetchesWithoutEntry :: "state \<Rightarrow> nat" where
  "prefetchesWithoutEntry s = length (filter ended_without_entry (contexts s))"

text \<open>Context \<open>i\<close> holds a rejected promise in \<open>nextEntryPromise\<close>.\<close>

definition rejected_at :: "state \<Rightarrow> nat \<Rightarrow> bool" where
  "rejected_at s i =
     (case contexts s ! i of None \<Rightarrow> False | Some c \<Rightarrow> nextEntryPromise c = Some Rejected)"

text \<open>
  A family of inputs on which the chain of calls grows deep: a first source with \<open>n\<close>
  entries at dates \<open>0, 1, 2, ...\<close> and a second source that has no entries.
\<close>

definition deepEntries :: "nat \<Rightarrow> LogEntry list" where
  "deepEntries n = map (\<lambda>k. \<lparr>date = int k, msg = ''''\<rparr>) [0..<n]"

definition deepSources :: "nat \<Rightarrow> LogEntry list list" where
  "deepSources n = [deepEntries n, []]"

text \<open>
  A run on these sources in which the second source is slow to answer: the first source
  delivers its first entry and, through the prefetches of \<open>bufferLogs\<close>, all its other
  entries and its exhaustion signal; then the second source delivers its exhaustion
  signal, \<open>Promise.all(promises)\<close> is fulfilled, and \<open>processNextLogEntry\<close> is called
  \<open>m + 1\<close> times, each time popping the context of the first source. No fetch is rejected.
\<close>

definition deepRun :: "nat \<Rightarrow> nat \<Rightarrow> event list" where
  "deepRun n m =
     Fulfil 0 Initial # replicate n (Fulfil 0 Prefetch) @ [Fulfil 1 Initial, Start]
       @ replicate (Suc m) (ProcessNext (Some 0))"

text \<open>The states of that run while the first source fills its buffer: \<open>k\<close> entries are buffered.\<close>

definition deepFilling :: "LogEntry list \<Rightarrow> nat \<Rightarrow> state \<Rightarrow> bool" where
  "deepFilling es k s =
     (logSources s =
        [\<lparr>remaining = drop (k + 2) es,
          outstanding = [(Prefetch, if k + 1 < length es then Some (es ! (k + 1)) else None)]\<rparr>,
         \<lparr>remaining = [], outstanding = [(Initial, None)]\<rparr>]
      \<and> contexts s =
          [Some \<lparr>entry = es ! 0, drained = False, bufferedEntries = take k (tl es),
                 nextEntryPromise = Some Pending\<rparr>, None]
      \<and> heap s = [0] \<and> numLogEntriesBuffered s = int k + 1 \<and> driver s = NotStarted
      \<and> printer s = [] \<and> stack s = 0)"

text \<open>The states of that run while the driver goes through the buffer: \<open>j\<close> entries are printed.\<close>

definition deepPrinting :: "LogEntry list \<Rightarrow> nat \<Rightarrow> state \<Rightarrow> bool" where
  "deepPrinting es j s =
     (logSources s = [\<lparr>remaining = [], outstanding = []\<rparr>, \<lparr>remaining = [], outstanding = []\<rparr>]
      \<and> contexts s =
          [Some \<lparr>entry = es ! j, drained = True, bufferedEntries = drop (j + 1) es,
                 nextEntryPromise = None\<rparr>, None]
      \<and> heap s = [0] \<and> driver s = Running
      \<and> printer s = map Print (take j es) \<and> stack s = 2 * int j)"

text \<open>
  The results of \<open>heap.pop()\<close> in the synchronous merge of the sources \<open>deepSources n\<close>:
  the object of the first source, every time.
\<close>

definition deepPicks :: "nat \<Rightarrow> (nat \<times> LogEntry) list" where
  "deepPicks n = map (\<lambda>e. (0, e)) (deepEntries n)"

section \<open>The invariant of the asynchronous merge\<close>

lemma take_fetch_single:
  "length outs \<le> 1 \<Longrightarrow> take_fetch k outs = Some (v, rest) \<Longrightarrow> outs = [(k, v)] \<and> rest = []"
  by (cases outs) (auto split: if_splits option.splits)

lemma bufferLogs_commute:
  "(bufferLogs mx i s)\<lparr>heap := h, driver := d\<rparr> = bufferLogs mx i (s\<lparr>heap := h, driver := d\<rparr>)"
  "(bufferLogs mx i s)\<lparr>driver := d\<rparr> = bufferLogs mx i (s\<lparr>driver := d\<rparr>)"
  "(bufferLogs mx i s)\<lparr>stack := n\<rparr> = bufferLogs mx i (s\<lparr>stack := n\<rparr>)"
  by (auto simp: bufferLogs_def split: option.splits)

lemma settle_stack: "(settle i rest r s)\<lparr>stack := stack s\<rparr> = settle i rest r s"
  by (simp add: settle_def)

lemma src_inv_outs:
  assumes "src_inv s i" "take_fetch k (outstanding (logSources s ! i)) = Some (v, rest)"
  shows "outstanding (logSources s ! i) = [(k, v)]" "rest = []"
proof -
  from assms(1) have "length (outstanding (logSources s ! i)) \<le> 1" by (simp add: src_inv_def src_ok_def Let_def)
  from take_fetch_single[OF this assms(2)] show "outstanding (logSources s ! i) = [(k, v)]" "rest = []"
    by auto
qed

lemma src_inv_Initial_ctx:
  "src_inv s i \<Longrightarrow> outstanding (logSources s ! i) = [(Initial, v)] \<Longrightarrow> contexts s ! i = None"
  by (cases "contexts s ! i") (auto simp: src_inv_def src_ok_def Let_def)

lemma step_trans_Fulfil_Initial:
  assumes "Inv s" "step lim mx (Fulfil i Initial) s = Some s'"
  shows "trans mx (Fulfil i Initial) s (s'\<lparr>stack := stack s\<rparr>)"
proof -
  from assms(2) obtain v rest where
    i: "i < length (logSources s)" "i < length (contexts s)"
    and tf: "take_fetch Initial (outstanding (logSources s ! i)) = Some (v, rest)"
    and s': "s' = initialFetched mx i v (settle i rest (Fulfilled v) s)"
    by (auto split: if_splits option.splits)
  from assms(1) i have si: "src_inv s i" by (auto simp: Inv_def)
  note outs = src_inv_outs[OF si tf]
  note ctx = src_inv_Initial_ctx[OF si outs(1)]
  show ?thesis
  proof (cases v)
    case None
    then show ?thesis using s' outs ctx i t_init_none[of i s mx]
      by (simp add: initialFetched_def settle_stack)
  next
    case (Some e)
    then show ?thesis using s' outs ctx i t_init_some[of i s e mx]
      by (simp add: initialFetched_def settle_def freshContext_def bufferLogs_commute)
  qed
qed

lemma step_trans_Fulfil_Prefetch:
  assumes "Inv s" "step lim mx (Fulfil i Prefetch) s = Some s'"
  shows "trans mx (Fulfil i Prefetch) s (s'\<lparr>stack := stack s\<rparr>)"
proof -
  from assms(2) obtain v rest where
    i: "i < length (logSources s)" "i < length (contexts s)"
    and tf: "take_fetch Prefetch (outstanding (logSources s ! i)) = Some (v, rest)"
    and s': "prefetched mx i v (settle i rest (Fulfilled v) s) = Some s'"
    by (auto split: if_splits option.splits)
  from assms(1) i have si: "src_inv s i" by (auto simp: Inv_def)
  note outs = src_inv_outs[OF si tf]
  from s' obtain c where c: "contexts s ! i = Some c"
    by (auto simp: prefetched_def settle_def split: option.splits)
  show ?thesis
    using s' outs c i t_prefetch[OF i(1) c outs(1) refl, of mx]
    by (auto simp: prefetched_def settle_def Let_def bufferLogs_commute)
qed

lemma step_trans_Fulfil_Direct:
  assumes "Inv s" "step lim mx (Fulfil i Direct) s = Some s'"
  shows "trans mx (Fulfil i Direct) s (s'\<lparr>stack := stack s\<rparr>)"
proof -
  from assms(2) obtain v rest where
    i: "i < length (logSources s)" "i < length (contexts s)" "driver s = AwaitDirect i"
    and tf: "take_fetch Direct (outstanding (logSources s ! i)) = Some (v, rest)"
    and s': "directFetched mx i v (settle i rest (Fulfilled v) s) = Some s'"
    by (auto split: if_splits option.splits)
  from assms(1) i have si: "src_inv s i" by (auto simp: Inv_def)
  note outs = src_inv_outs[OF si tf]
  from s' obtain c where c: "contexts s ! i = Some c"
    by (auto simp: directFetched_def settle_def split: option.splits)
  show ?thesis
  proof (cases v)
    case None
    then show ?thesis using s' outs c i t_direct_none[OF i(1) c i(3), of mx]
      by (auto simp: directFetched_def settle_def)
  next
    case (Some e)
    then show ?thesis using s' outs c i t_direct_some[OF i(1) c i(3), of e mx]
      by (auto simp: directFetched_def settle_def bufferLogs_commute)
  qed
qed

lemma step_trans_Reject:
  assumes "Inv s" "step lim mx (Reject i k) s = Some s'"
  shows "trans mx (Reject i k) s (s'\<lparr>stack := stack s\<rparr>)"
proof -
  from assms(2) obtain v rest where
    i: "i < length (logSources s)" "i < length (contexts s)"
    and tf: "take_fetch k (outstanding (logSources s ! i)) = Some (v, rest)"
    by (auto split: if_splits option.splits)
  from assms(1) i have si: "src_inv s i" by (auto simp: Inv_def)
  note outs = src_inv_outs[OF si tf]
  show ?thesis
  proof (cases k)
    case Initial
    then show ?thesis
      using assms(2) i tf outs src_inv_Initial_ctx[OF si] t_reject_initial[OF i(1), of v mx]
      by (auto simp: settle_def Let_def)
  next
    case Prefetch
    with assms(2) i tf obtain c where c: "contexts s ! i = Some c"
      by (auto split: option.splits)
    then show ?thesis
      using Prefetch assms(2) i tf outs t_reject_prefetch[OF i(1) c, of v mx]
      by (auto simp: settle_def Let_def)
  next
    case Direct
    with assms(2) i tf have d: "driver s = AwaitDirect i" by (auto split: if_splits)
    with assms(1) i obtain c where c: "contexts s ! i = Some c"
      using si by (cases "contexts s ! i") (auto simp: src_inv_def src_ok_def Let_def on_src_def)
    then show ?thesis
      using Direct assms(2) i tf outs d t_reject_direct[OF i(1) c d, of v mx]
      by (auto simp: settle_def)
  qed
qed

lemma step_trans_ProcessNext:
  assumes "Inv s" "step lim mx (ProcessNext (Some i)) s = Some s'"
  shows "trans mx (ProcessNext (Some i)) s (s'\<lparr>stack := stack s\<rparr>)"
proof -
  from assms(2) have
    i: "i < length (logSources s)" "driver s = Running" "i \<in> set (heap s)" "earliest s i"
    and s': "(if lim \<le> stack s then Some (s\<lparr>driver := Failed\<rparr>)
              else processContext lim mx i s) = Some s'"
    by (auto split: if_splits)
  show ?thesis
  proof (cases "lim \<le> stack s")
    case True
    with s' show ?thesis using t_abort_call[OF i, of mx] by auto
  next
    case False
    with s' have pc: "processContext lim mx i s = Some s'" by simp
    then obtain c where c: "contexts s ! i = Some c"
      by (auto simp: processContext_def split: option.splits)
    show ?thesis
    proof (cases "bufferedEntries c")
      case (Cons e r)
      then show ?thesis
        using pc c t_case1[OF i c Cons, of mx] t_abort_case1[OF i c Cons, of mx]
        by (auto simp: processContext_def getNextEntry_def Let_def bufferLogs_commute
                 split: if_splits)
    next
      case Nil
      show ?thesis
      proof (cases "nextEntryPromise c")
        case (Some p)
        then show ?thesis
          using pc c Nil t_case2[OF i c Nil, of mx] t_case2_rejected[OF i c Nil, of mx]
          by (cases p) (auto simp: processContext_def Let_def)
      next
        case None
        then show ?thesis
          using pc c Nil t_case3[OF i c Nil None, of mx] t_case4[OF i c Nil None, of mx]
          by (cases "drained c") (auto simp: processContext_def Let_def)
      qed
    qed
  qed
qed

lemma step_trans_Resume:
  assumes "Inv s" "step lim mx Resume s = Some s'"
  shows "trans mx Resume s (s'\<lparr>stack := stack s\<rparr>)"
proof -
  from assms(2) obtain i where
    i: "i < length (logSources s)" "driver s = Resumable i"
    and s': "resumed lim mx i s = Some s'"
    by (auto split: if_splits driver.splits)
  from s' obtain c where c: "contexts s ! i = Some c"
    by (auto simp: resumed_def split: option.splits)
  from assms(1) i c have ok: "bufferedEntries c \<noteq> [] \<or> drained c"
    by (auto simp: Inv_def src_inv_def src_ok_def Let_def)
  show ?thesis
  proof (cases "bufferedEntries c")
    case (Cons e r)
    then show ?thesis
      using s' c t_resume_next[OF i c Cons, of mx] t_abort_resume[OF i c Cons, of mx]
      by (auto simp: resumed_def getNextEntry_def Let_def bufferLogs_commute split: if_splits)
  next
    case Nil
    then show ?thesis using s' c ok t_resume_drop[OF i c Nil, of mx]
      by (auto simp: resumed_def)
  qed
qed

lemma step_trans:
  assumes "Inv s" "step lim mx ev s = Some s'"
  shows "trans mx ev s (s'\<lparr>stack := stack s\<rparr>)"
proof (cases ev)
  case (Fulfil i k)
  then show ?thesis
    using assms step_trans_Fulfil_Initial step_trans_Fulfil_Prefetch step_trans_Fulfil_Direct
    by (cases k) auto
next
  case (Reject i k)
  then show ?thesis using assms step_trans_Reject by auto
next
  case Start
  then show ?thesis using assms t_start[of s mx] by (auto split: if_splits)
next
  case (ProcessNext oi)
  then show ?thesis using assms step_trans_ProcessNext t_done[of s mx] t_abort_done[of s mx]
    by (cases oi) (auto split: if_splits)
next
  case Resume
  then show ?thesis using assms step_trans_Resume by auto
qed

lemma src_ok_mono: "src_ok j src ctx h d sg \<Longrightarrow> (sg \<Longrightarrow> sg') \<Longrightarrow> src_ok j src ctx h d sg'"
  unfolding src_ok_def Let_def by (cases ctx) auto

lemma src_ok_driver_other:
  "src_ok j src ctx h d sg \<Longrightarrow> \<not> on_src d j \<Longrightarrow> \<not> on_src d' j \<Longrightarrow> d \<noteq> NotStarted \<Longrightarrow> d \<noteq> Failed
   \<Longrightarrow> d' \<noteq> NotStarted \<Longrightarrow> src_ok j src ctx h d' sg"
  unfolding src_ok_def Let_def on_src_def by (cases ctx) auto

lemma src_ok_driver_failed:
  "src_ok j src ctx h d sg \<Longrightarrow> \<not> on_src d j \<Longrightarrow> src_ok j src ctx h Failed sg"
  unfolding src_ok_def Let_def on_src_def by (cases ctx) auto

lemma src_ok_outs_empty:
  assumes "src_ok i src (Some c) h d sg" "nextEntryPromise c = None" "d \<noteq> AwaitDirect i"
  shows "outstanding src = []"
proof (cases "outstanding src")
  case Nil
  then show ?thesis .
next
  case (Cons f fs)
  obtain k v where f: "f = (k, v)" by (cases f)
  from assms Cons f show ?thesis
    by (cases k) (auto simp: src_ok_def Let_def)
qed

lemma ok_issue:
  assumes "src_ok i src (Some c) h d sg" "\<not> drained c" "nextEntryPromise c = None"
    "d \<noteq> AwaitDirect i" "h \<or> on_src d i \<or> d = Failed"
  shows "src_ok i (popAsync Prefetch src) (Some (c\<lparr>nextEntryPromise := Some Pending\<rparr>)) h d sg"
proof -
  have "outstanding src = []" by (rule src_ok_outs_empty[OF assms(1,3,4)])
  then show ?thesis using assms
    unfolding src_ok_def Let_def on_src_def popAsync_def
    by (cases "remaining src") auto
qed

lemma ok_init_none:
  assumes "src_ok i src None h d sg" "outstanding src = [(Initial, None)]"
  shows "src_ok i (src\<lparr>outstanding := []\<rparr>) None h d True"
  using assms unfolding src_ok_def Let_def on_src_def by auto

lemma ok_init_some:
  assumes "src_ok i src None h d sg" "outstanding src = [(Initial, Some e)]"
  shows "src_ok i (src\<lparr>outstanding := []\<rparr>) (Some (freshContext e)) True d sg"
  using assms unfolding src_ok_def Let_def on_src_def freshContext_def by auto

lemma ok_prefetch:
  assumes "src_ok i src (Some c) h d sg" "outstanding src = [(Prefetch, v)]"
    "c' = (case v of Some e \<Rightarrow> c\<lparr>bufferedEntries := bufferedEntries c @ [e]\<rparr>
                   | None \<Rightarrow> c\<lparr>drained := True\<rparr>)"
    "sg \<Longrightarrow> sg'" "v = None \<Longrightarrow> sg'"
  shows "src_ok i (src\<lparr>outstanding := []\<rparr>) (Some (c'\<lparr>nextEntryPromise := None\<rparr>)) h
           (if d = AwaitPrefetch i then Resumable i else d) sg'"
  using assms unfolding src_ok_def Let_def on_src_def by (cases v) auto

lemma ok_direct_none:
  assumes "src_ok i src (Some c) h (AwaitDirect i) sg" "outstanding src = [(Direct, None)]"
  shows "src_ok i (src\<lparr>outstanding := []\<rparr>) (Some c) h Running True"
  using assms unfolding src_ok_def Let_def on_src_def by auto

lemma ok_direct_some:
  assumes "src_ok i src (Some c) h (AwaitDirect i) sg" "outstanding src = [(Direct, Some e)]"
  shows "src_ok i (src\<lparr>outstanding := []\<rparr>) (Some (c\<lparr>entry := e\<rparr>)) True Running sg"
  using assms unfolding src_ok_def Let_def on_src_def by auto

lemma ok_reject_initial:
  assumes "src_ok i src None h d sg" "outstanding src = [(Initial, v)]"
  shows "src_ok i (src\<lparr>outstanding := []\<rparr>) None h (if d = NotStarted then Failed else d) sg"
  using assms unfolding src_ok_def Let_def on_src_def by auto

lemma ok_reject_prefetch:
  assumes "src_ok i src (Some c) h d sg" "outstanding src = [(Prefetch, v)]"
  shows "src_ok i (src\<lparr>outstanding := []\<rparr>) (Some (c\<lparr>nextEntryPromise := Some Rejected\<rparr>)) h
           (if d = AwaitPrefetch i then Failed else d) sg"
  using assms unfolding src_ok_def Let_def on_src_def by auto

lemma ok_reject_direct:
  assumes "src_ok i src (Some c) h (AwaitDirect i) sg" "outstanding src = [(Direct, v)]"
  shows "src_ok i (src\<lparr>outstanding := []\<rparr>) (Some c) h Failed sg"
  using assms unfolding src_ok_def Let_def on_src_def by auto

lemma ok_next:
  assumes "src_ok i src (Some c) h d sg" "bufferedEntries c = e # r" "d = Running \<or> d = Resumable i"
  shows "src_ok i src (Some (c\<lparr>entry := e, bufferedEntries := r\<rparr>)) True Running sg"
  using assms unfolding src_ok_def Let_def on_src_def by auto

lemma ok_case2:
  assumes "src_ok i src (Some c) True Running sg" "bufferedEntries c = []"
    "nextEntryPromise c = Some Pending"
  shows "src_ok i src (Some c) False (AwaitPrefetch i) sg"
  using assms unfolding src_ok_def Let_def on_src_def by auto

lemma ok_case2_rejected:
  assumes "src_ok i src (Some c) True Running sg"
  shows "src_ok i src (Some c) False Failed sg"
  using assms unfolding src_ok_def Let_def on_src_def by auto

lemma ok_drop:
  assumes "src_ok i src (Some c) h d sg" "bufferedEntries c = []" "nextEntryPromise c = None"
    "drained c" "d = Running \<or> d = Resumable i"
  shows "src_ok i src (Some c) False Running sg"
proof -
  have "outstanding src = []" by (rule src_ok_outs_empty[OF assms(1,3)]) (use assms(5) in auto)
  then show ?thesis using assms unfolding src_ok_def Let_def on_src_def by auto
qed

lemma ok_case4:
  assumes "src_ok i src (Some c) True Running sg" "bufferedEntries c = []"
    "nextEntryPromise c = None" "\<not> drained c"
  shows "src_ok i (popAsync Direct src) (Some c) False (AwaitDirect i) sg"
proof -
  have "outstanding src = []" by (rule src_ok_outs_empty[OF assms(1,3)]) simp
  then show ?thesis using assms unfolding src_ok_def Let_def on_src_def popAsync_def
    by (cases "remaining src") auto
qed

lemma ok_start:
  assumes "src_ok j src ctx h NotStarted sg" "\<forall>f \<in> set (outstanding src). fst f \<noteq> Initial"
  shows "src_ok j src ctx h Running sg"
  using assms unfolding src_ok_def Let_def on_src_def by (cases ctx) auto

lemma on_src_simps:
  "\<not> on_src Running j" "\<not> on_src Failed j" "\<not> on_src NotStarted j" "\<not> on_src Finished j"
  "\<not> on_src UndefinedHead j"
  "on_src (AwaitPrefetch i) j \<longleftrightarrow> i = j" "on_src (Resumable i) j \<longleftrightarrow> i = j"
  "on_src (AwaitDirect i) j \<longleftrightarrow> i = j"
  by (auto simp: on_src_def)

lemma on_src_unique: "on_src d i \<Longrightarrow> on_src d j \<Longrightarrow> i = j"
  by (auto simp: on_src_def)

lemma src_inv_frame:
  assumes "src_inv s j"
    and "logSources s' ! j = logSources s ! j"
    and "contexts s' ! j = contexts s ! j"
    and "j \<in> set (heap s') \<longleftrightarrow> j \<in> set (heap s)"
    and "set (settled s) \<subseteq> set (settled s')"
    and "driver s' = driver s
         \<or> (\<not> on_src (driver s) j \<and> \<not> on_src (driver s') j \<and> driver s \<noteq> NotStarted
             \<and> driver s \<noteq> Failed \<and> driver s' \<noteq> NotStarted)
         \<or> (driver s' = Failed \<and> \<not> on_src (driver s) j)"
  shows "src_inv s' j"
proof -
  let ?sg' = "(j, Fulfilled None) \<in> set (settled s')"
  from assms(1) have "src_ok j (logSources s ! j) (contexts s ! j) (j \<in> set (heap s)) (driver s)
      ((j, Fulfilled None) \<in> set (settled s))"
    by (simp add: src_inv_def)
  then have a: "src_ok j (logSources s ! j) (contexts s ! j) (j \<in> set (heap s)) (driver s) ?sg'"
    by (rule src_ok_mono) (use assms(5) in auto)
  have "src_ok j (logSources s ! j) (contexts s ! j) (j \<in> set (heap s)) (driver s') ?sg'"
    using assms(6) a src_ok_driver_other[OF a, of "driver s'"] src_ok_driver_failed[OF a]
    by auto
  then show ?thesis using assms(2,3,4) by (simp add: src_inv_def)
qed

lemma Inv_local:
  assumes "Inv s" "i < length (logSources s)"
    and "length (logSources s') = length (logSources s)"
    and "\<And>j. j \<noteq> i \<Longrightarrow> j < length (logSources s) \<Longrightarrow>
           logSources s' ! j = logSources s ! j \<and> contexts s' ! j = contexts s ! j
           \<and> (j \<in> set (heap s') \<longleftrightarrow> j \<in> set (heap s))"
    and "set (settled s) \<subseteq> set (settled s')"
    and "driver s' = driver s
         \<or> ((on_src (driver s) i \<or> driver s = Running)
             \<and> (on_src (driver s') i \<or> driver s' = Running \<or> driver s' = Failed))
         \<or> (driver s = NotStarted \<and> driver s' = Failed)"
    and "wf s'" and "src_inv s' i"
  shows "Inv s'"
  unfolding Inv_def
proof (intro conjI allI impI)
  show "wf s'" by fact
next
  fix j assume j: "j < length (logSources s')"
  show "src_inv s' j"
  proof (cases "j = i")
    case True
    then show ?thesis using assms(8) by simp
  next
    case False
    from j assms(3) have j': "j < length (logSources s)" by simp
    with assms(1) have sj: "src_inv s j" by (simp add: Inv_def)
    have d: "driver s' = driver s
         \<or> (\<not> on_src (driver s) j \<and> \<not> on_src (driver s') j \<and> driver s \<noteq> NotStarted
             \<and> driver s \<noteq> Failed \<and> driver s' \<noteq> NotStarted)
         \<or> (driver s' = Failed \<and> \<not> on_src (driver s) j)"
    proof -
      consider (a) "driver s' = driver s"
        | (b) "on_src (driver s) i \<or> driver s = Running"
              "on_src (driver s') i \<or> driver s' = Running \<or> driver s' = Failed"
        | (c) "driver s = NotStarted" "driver s' = Failed"
        using assms(6) by blast
      then show ?thesis
      proof cases
        case a
        then show ?thesis by simp
      next
        case b
        have 1: "\<not> on_src (driver s) j"
          using b(1) False on_src_unique[of "driver s" i j] by (auto simp: on_src_simps)
        have 2: "driver s \<noteq> NotStarted \<and> driver s \<noteq> Failed"
          using b(1) by (auto simp: on_src_simps)
        have 3: "driver s' = Failed \<or> (\<not> on_src (driver s') j \<and> driver s' \<noteq> NotStarted)"
          using b(2) False on_src_unique[of "driver s'" i j] by (auto simp: on_src_simps)
        from 1 2 3 show ?thesis by blast
      next
        case c
        then show ?thesis by (simp add: on_src_simps)
      qed
    qed
    show ?thesis
      using assms(4)[OF False j'] assms(5)
      by (intro src_inv_frame[OF sj _ _ _ _ d]) auto
  qed
qed

lemma bufferLogs_cases:
  obtains (same) "bufferLogs mx i s = s"
  | (issue) c where "contexts s ! i = Some c" "\<not> drained c" "nextEntryPromise c = None"
      "numLogEntriesBuffered s \<noteq> mx"
      "bufferLogs mx i s =
         s\<lparr>numLogEntriesBuffered := numLogEntriesBuffered s + 1,
           logSources := (logSources s)[i := popAsync Prefetch (logSources s ! i)],
           contexts := (contexts s)[i := Some (c\<lparr>nextEntryPromise := Some Pending\<rparr>)]\<rparr>"
proof (cases "contexts s ! i")
  case None
  then have "bufferLogs mx i s = s" by (simp add: bufferLogs_def)
  then show ?thesis by (rule same)
next
  case (Some c)
  show ?thesis
  proof (cases "numLogEntriesBuffered s = mx \<or> drained c \<or> nextEntryPromise c \<noteq> None")
    case True
    with Some have "bufferLogs mx i s = s" by (auto simp: bufferLogs_def)
    then show ?thesis by (rule same)
  next
    case False
    with Some show ?thesis by (intro issue[of c]) (simp_all add: bufferLogs_def)
  qed
qed

lemma Inv_bufferLogs:
  assumes "Inv s" "i < length (logSources s)" "driver s \<noteq> AwaitDirect i"
    "i \<in> set (heap s) \<or> on_src (driver s) i \<or> driver s = Failed"
  shows "Inv (bufferLogs mx i s)"
proof (cases mx i s rule: bufferLogs_cases)
  case same
  then show ?thesis using assms(1) by simp
next
  case (issue c)
  note c = issue(1-3) and s' = issue(5)
  from assms(1,2) have si: "src_inv s i" and wf: "wf s" by (auto simp: Inv_def)
  have len: "length (contexts s) = length (logSources s)" using wf by (simp add: wf_def)
  from si c have ok: "src_ok i (logSources s ! i) (Some c) (i \<in> set (heap s)) (driver s)
      ((i, Fulfilled None) \<in> set (settled s))"
    by (simp add: src_inv_def)
  show ?thesis
    unfolding s'
  proof (rule Inv_local[OF assms(1,2)])
    show "wf (s\<lparr>numLogEntriesBuffered := numLogEntriesBuffered s + 1,
             logSources := (logSources s)[i := popAsync Prefetch (logSources s ! i)],
             contexts := (contexts s)[i := Some (c\<lparr>nextEntryPromise := Some Pending\<rparr>)]\<rparr>)"
      using wf by (simp add: wf_def)
    show "src_inv (s\<lparr>numLogEntriesBuffered := numLogEntriesBuffered s + 1,
             logSources := (logSources s)[i := popAsync Prefetch (logSources s ! i)],
             contexts := (contexts s)[i := Some (c\<lparr>nextEntryPromise := Some Pending\<rparr>)]\<rparr>) i"
      using ok_issue[OF ok c(2,3) assms(3,4)] assms(2) len
      by (simp add: src_inv_def)
  qed (use assms(2) in auto)
qed

lemma src_ok_outstanding_live:
  assumes "src_ok i src (Some c) h d sg" "outstanding src = [(Prefetch, v)]"
  shows "d \<noteq> AwaitDirect i" "h \<or> on_src d i \<or> d = Failed"
  using assms unfolding src_ok_def Let_def by auto

lemma src_ok_initial_driver:
  "src_ok i src ctx h d sg \<Longrightarrow> outstanding src = [(Initial, v)] \<Longrightarrow> d = NotStarted \<or> d = Failed"
  unfolding src_ok_def Let_def by auto

lemma Inv_wf: "Inv s \<Longrightarrow> wf s"
  by (simp add: Inv_def)

lemma Inv_src: "Inv s \<Longrightarrow> i < length (logSources s) \<Longrightarrow>
    src_ok i (logSources s ! i) (contexts s ! i) (i \<in> set (heap s)) (driver s)
      ((i, Fulfilled None) \<in> set (settled s))"
  by (simp add: Inv_def src_inv_def)

lemma src_ok_None_heap: "src_ok i src None h d sg \<Longrightarrow> \<not> h \<and> \<not> on_src d i"
  unfolding src_ok_def Let_def by auto

lemma src_ok_on_heap: "src_ok i src (Some c) h d sg \<Longrightarrow> on_src d i \<Longrightarrow> \<not> h"
  unfolding src_ok_def Let_def by auto

lemma ok_abort_resume:
  assumes "src_ok i src (Some c) h (Resumable i) sg"
  shows "src_ok i src (Some c) h Failed sg"
  using assms unfolding src_ok_def Let_def on_src_def by auto

lemma Inv_trans:
  assumes "trans mx ev s s'" "Inv s"
  shows "Inv s'"
  using assms(1)
proof (cases rule: trans.cases)
  case (t_init_none i)
  note i = t_init_none(3)
  note wf = Inv_wf[OF assms(2)]
  note ok = Inv_src[OF assms(2) i, unfolded t_init_none(4)]
  show ?thesis
    unfolding t_init_none(2)
  proof (rule Inv_local[OF assms(2) i])
    show "wf (settle i [] (Fulfilled None) s)"
      using wf by (simp add: wf_def settle_def)
    show "src_inv (settle i [] (Fulfilled None) s) i"
      using ok_init_none[OF ok t_init_none(5)] i wf t_init_none(4)
      by (simp add: src_inv_def settle_def wf_def)
  qed (auto simp: settle_def)
next
  case (t_init_some i e)
  note i = t_init_some(3)
  note wf = Inv_wf[OF assms(2)]
  note ok = Inv_src[OF assms(2) i, unfolded t_init_some(4)]
  let ?sa = "(settle i [] (Fulfilled (Some e)) s)
                 \<lparr>contexts := (contexts s)[i := Some (freshContext e)], heap := heap s @ [i]\<rparr>"
  have "Inv ?sa"
  proof (rule Inv_local[OF assms(2) i])
    show "wf ?sa"
      using wf src_ok_None_heap[OF ok] src_ok_initial_driver[OF ok t_init_some(5)] i
      by (auto simp: wf_def settle_def)
    show "src_inv ?sa i"
      using ok_init_some[OF ok t_init_some(5)] i wf
      by (simp add: src_inv_def settle_def wf_def)
  qed (auto simp: settle_def)
  moreover have "driver ?sa \<noteq> AwaitDirect i"
    using src_ok_None_heap[OF ok] by (auto simp: settle_def on_src_def)
  ultimately show ?thesis
    unfolding t_init_some(2) by (intro Inv_bufferLogs) (simp_all add: settle_def i)
next
  case (t_prefetch i c v c')
  note i = t_prefetch(3)
  note wf = Inv_wf[OF assms(2)]
  note ok = Inv_src[OF assms(2) i, unfolded t_prefetch(4)]
  note live = src_ok_outstanding_live[OF ok t_prefetch(5)]
  let ?d = "if driver s = AwaitPrefetch i then Resumable i else driver s"
  let ?sa = "(settle i [] (Fulfilled v) s)
                 \<lparr>contexts := (contexts s)[i := Some (c'\<lparr>nextEntryPromise := None\<rparr>)],
                  driver := ?d\<rparr>"
  have "Inv ?sa"
  proof (rule Inv_local[OF assms(2) i])
    show "wf ?sa"
      using wf i by (auto simp: wf_def settle_def on_src_simps)
    have "src_ok i ((logSources s ! i)\<lparr>outstanding := []\<rparr>) (Some (c'\<lparr>nextEntryPromise := None\<rparr>))
            (i \<in> set (heap s)) ?d ((i, Fulfilled None) \<in> set (settled s @ [(i, Fulfilled v)]))"
      by (rule ok_prefetch[OF ok t_prefetch(5,6)]) auto
    then show "src_inv ?sa i"
      using i wf by (simp add: src_inv_def settle_def wf_def)
  qed (auto simp: settle_def on_src_simps)
  moreover have "driver ?sa \<noteq> AwaitDirect i"
    using live(1) by auto
  moreover have "i \<in> set (heap ?sa) \<or> on_src (driver ?sa) i \<or> driver ?sa = Failed"
    using live(2) by (auto simp: settle_def on_src_def)
  ultimately show ?thesis
    unfolding t_prefetch(2) by (intro Inv_bufferLogs) (simp_all add: settle_def i)
next
  case (t_direct_none i c)
  note i = t_direct_none(3)
  note wf = Inv_wf[OF assms(2)]
  note ok = Inv_src[OF assms(2) i, unfolded t_direct_none(4,5)]
  show ?thesis
    unfolding t_direct_none(2)
  proof (rule Inv_local[OF assms(2) i])
    show "wf ((settle i [] (Fulfilled None) s)\<lparr>driver := Running\<rparr>)"
      using wf by (simp add: wf_def settle_def on_src_simps)
    show "src_inv ((settle i [] (Fulfilled None) s)\<lparr>driver := Running\<rparr>) i"
      using ok_direct_none[OF ok t_direct_none(6)] i wf t_direct_none(4)
      by (simp add: src_inv_def settle_def wf_def)
  qed (auto simp: settle_def on_src_simps t_direct_none(5))
next
  case (t_direct_some i c e)
  note i = t_direct_some(3)
  note wf = Inv_wf[OF assms(2)]
  note ok = Inv_src[OF assms(2) i, unfolded t_direct_some(4,5)]
  let ?sa = "(settle i [] (Fulfilled (Some e)) s)
                 \<lparr>contexts := (contexts s)[i := Some (c\<lparr>entry := e\<rparr>)],
                  heap := heap s @ [i], driver := Running\<rparr>"
  have nh: "i \<notin> set (heap s)"
    using src_ok_on_heap[OF ok] by (simp add: on_src_simps)
  have "Inv ?sa"
  proof (rule Inv_local[OF assms(2) i])
    show "wf ?sa"
      using wf nh i by (simp add: wf_def settle_def on_src_simps)
    show "src_inv ?sa i"
      using ok_direct_some[OF ok t_direct_some(6)] i wf
      by (simp add: src_inv_def settle_def wf_def)
  qed (auto simp: settle_def on_src_simps t_direct_some(5))
  then show ?thesis
    unfolding t_direct_some(2) by (intro Inv_bufferLogs) (simp_all add: settle_def i)
next
  case (t_reject_initial i v)
  note i = t_reject_initial(3)
  note wf = Inv_wf[OF assms(2)]
  note ok = Inv_src[OF assms(2) i, unfolded t_reject_initial(4)]
  let ?d = "if driver s = NotStarted then Failed else driver s"
  show ?thesis
    unfolding t_reject_initial(2)
  proof (rule Inv_local[OF assms(2) i])
    show "wf ((settle i [] RejectedFetch s)\<lparr>driver := ?d\<rparr>)"
      using wf by (auto simp: wf_def settle_def on_src_simps)
    show "src_inv ((settle i [] RejectedFetch s)\<lparr>driver := ?d\<rparr>) i"
      using ok_reject_initial[OF ok t_reject_initial(5)] i wf t_reject_initial(4)
      by (simp add: src_inv_def settle_def wf_def)
  qed (auto simp: settle_def on_src_simps)
next
  case (t_reject_prefetch i c v)
  note i = t_reject_prefetch(3)
  note wf = Inv_wf[OF assms(2)]
  note ok = Inv_src[OF assms(2) i, unfolded t_reject_prefetch(4)]
  let ?d = "if driver s = AwaitPrefetch i then Failed else driver s"
  let ?sa = "(settle i [] RejectedFetch s)
              \<lparr>contexts := (contexts s)[i := Some (c\<lparr>nextEntryPromise := Some Rejected\<rparr>)],
               driver := ?d\<rparr>"
  show ?thesis
    unfolding t_reject_prefetch(2)
  proof (rule Inv_local[OF assms(2) i])
    show "wf ?sa"
      using wf by (auto simp: wf_def settle_def on_src_simps)
    show "src_inv ?sa i"
      using ok_reject_prefetch[OF ok t_reject_prefetch(5)] i wf
      by (simp add: src_inv_def settle_def wf_def)
  qed (auto simp: settle_def on_src_simps)
next
  case (t_reject_direct i c v)
  note i = t_reject_direct(3)
  note wf = Inv_wf[OF assms(2)]
  note ok = Inv_src[OF assms(2) i, unfolded t_reject_direct(4,5)]
  show ?thesis
    unfolding t_reject_direct(2)
  proof (rule Inv_local[OF assms(2) i])
    show "wf ((settle i [] RejectedFetch s)\<lparr>driver := Failed\<rparr>)"
      using wf by (simp add: wf_def settle_def on_src_simps)
    show "src_inv ((settle i [] RejectedFetch s)\<lparr>driver := Failed\<rparr>) i"
      using ok_reject_direct[OF ok t_reject_direct(6)] i wf t_reject_direct(4)
      by (simp add: src_inv_def settle_def wf_def)
  qed (auto simp: settle_def on_src_simps t_reject_direct(5))
next
  case t_start
  note wf = Inv_wf[OF assms(2)]
  have "src_inv (s\<lparr>driver := Running\<rparr>) j" if j: "j < length (logSources s)" for j
  proof -
    have "\<forall>f \<in> set (outstanding (logSources s ! j)). fst f \<noteq> Initial"
      using t_start(4) j by (auto simp: no_initial_outstanding_def list_all_iff)
    from ok_start[OF Inv_src[OF assms(2) j, unfolded t_start(3)] this]
    show ?thesis by (simp add: src_inv_def)
  qed
  then show ?thesis
    unfolding t_start(2) using wf by (simp add: Inv_def wf_def on_src_simps t_start(3))
next
  case t_done
  note wf = Inv_wf[OF assms(2)]
  let ?sa = "s\<lparr>printer := printer s @ [Done], driver := Finished\<rparr>"
  have "src_inv ?sa j" if j: "j < length (logSources s)" for j
  proof -
    from assms(2) j have sj: "src_inv s j" by (simp add: Inv_def)
    show ?thesis
      by (rule src_inv_frame[OF sj]) (simp_all add: on_src_simps t_done(3))
  qed
  then show ?thesis
    unfolding t_done(2) using wf by (simp add: Inv_def wf_def on_src_simps t_done(4))
next
  case (t_case1 i c e r)
  note i = t_case1(3)
  note wf = Inv_wf[OF assms(2)]
  note ok = Inv_src[OF assms(2) i, unfolded t_case1(4,7)]
  let ?sa = "s\<lparr>printer := printer s @ [Print (entry c)],
                 numLogEntriesBuffered := numLogEntriesBuffered s - 1,
                 contexts := (contexts s)[i := Some (c\<lparr>entry := e, bufferedEntries := r\<rparr>)],
                 heap := remove1 i (heap s) @ [i], driver := Running\<rparr>"
  have "Inv ?sa"
  proof (rule Inv_local[OF assms(2) i])
    show "wf ?sa"
      using wf i by (auto simp: wf_def on_src_simps)
    show "src_inv ?sa i"
      using ok_next[OF ok t_case1(8)] i wf
      by (simp add: src_inv_def wf_def)
  qed (auto simp: t_case1(4))
  then show ?thesis
    unfolding t_case1(2) by (intro Inv_bufferLogs) (simp_all add: i)
next
  case (t_case2 i c)
  note i = t_case2(3)
  note wf = Inv_wf[OF assms(2)]
  note ok = Inv_src[OF assms(2) i, unfolded t_case2(4,7)]
  let ?sa = "s\<lparr>heap := remove1 i (heap s), printer := printer s @ [Print (entry c)],
              driver := AwaitPrefetch i\<rparr>"
  show ?thesis
    unfolding t_case2(2)
  proof (rule Inv_local[OF assms(2) i])
    show "wf ?sa"
      using wf i by (auto simp: wf_def on_src_simps)
    show "src_inv ?sa i"
      using ok_case2[OF _ t_case2(8,9)] ok t_case2(5) i wf
      by (simp add: src_inv_def wf_def t_case2(7))
  qed (auto simp: t_case2(4) on_src_simps)
next
  case (t_case2_rejected i c)
  note i = t_case2_rejected(3)
  note wf = Inv_wf[OF assms(2)]
  note ok = Inv_src[OF assms(2) i, unfolded t_case2_rejected(4,7)]
  let ?sa = "s\<lparr>heap := remove1 i (heap s), printer := printer s @ [Print (entry c)],
              driver := Failed\<rparr>"
  show ?thesis
    unfolding t_case2_rejected(2)
  proof (rule Inv_local[OF assms(2) i])
    show "wf ?sa"
      using wf i by (auto simp: wf_def on_src_simps)
    show "src_inv ?sa i"
      using ok_case2_rejected ok t_case2_rejected(5) i wf
      by (simp add: src_inv_def wf_def t_case2_rejected(7))
  qed (auto simp: t_case2_rejected(4) on_src_simps)
next
  case (t_case3 i c)
  note i = t_case3(3)
  note wf = Inv_wf[OF assms(2)]
  note ok = Inv_src[OF assms(2) i, unfolded t_case3(4,7)]
  let ?sa = "s\<lparr>heap := remove1 i (heap s), printer := printer s @ [Print (entry c)]\<rparr>"
  show ?thesis
    unfolding t_case3(2)
  proof (rule Inv_local[OF assms(2) i])
    show "wf ?sa"
      using wf i by (auto simp: wf_def on_src_simps t_case3(4))
    show "src_inv ?sa i"
      using ok_drop[OF ok t_case3(8,9,10)] i wf
      by (simp add: src_inv_def wf_def t_case3(4,7))
  qed (auto simp: t_case3(4) on_src_simps)
next
  case (t_case4 i c)
  note i = t_case4(3)
  note wf = Inv_wf[OF assms(2)]
  note ok = Inv_src[OF assms(2) i, unfolded t_case4(4,7)]
  let ?sa = "s\<lparr>heap := remove1 i (heap s), printer := printer s @ [Print (entry c)],
              logSources := (logSources s)[i := popAsync Direct (logSources s ! i)],
              driver := AwaitDirect i\<rparr>"
  show ?thesis
    unfolding t_case4(2)
  proof (rule Inv_local[OF assms(2) i])
    show "wf ?sa"
      using wf i by (auto simp: wf_def on_src_simps)
    show "src_inv ?sa i"
      using ok_case4[OF _ t_case4(8,9,10)] ok t_case4(5) i wf
      by (simp add: src_inv_def wf_def t_case4(7))
  qed (auto simp: t_case4(4) on_src_simps)
next
  case (t_resume_drop i c)
  note i = t_resume_drop(3)
  note wf = Inv_wf[OF assms(2)]
  note ok = Inv_src[OF assms(2) i, unfolded t_resume_drop(4,5)]
  have nh: "i \<notin> set (heap s)"
    using src_ok_on_heap[OF ok] by (simp add: on_src_simps)
  have pn: "nextEntryPromise c = None"
    using ok t_resume_drop(7) by (simp add: src_ok_def Let_def)
  show ?thesis
    unfolding t_resume_drop(2)
  proof (rule Inv_local[OF assms(2) i])
    show "wf (s\<lparr>driver := Running\<rparr>)"
      using wf i by (auto simp: wf_def on_src_simps)
    show "src_inv (s\<lparr>driver := Running\<rparr>) i"
      using ok_drop[OF ok t_resume_drop(6) pn t_resume_drop(7)] nh i wf
      by (simp add: src_inv_def wf_def t_resume_drop(5))
  qed (auto simp: t_resume_drop(4) on_src_simps)
next
  case (t_resume_next i c e r)
  note i = t_resume_next(3)
  note wf = Inv_wf[OF assms(2)]
  note ok = Inv_src[OF assms(2) i, unfolded t_resume_next(4,5)]
  have nh: "i \<notin> set (heap s)"
    using src_ok_on_heap[OF ok] by (simp add: on_src_simps)
  let ?sa = "s\<lparr>numLogEntriesBuffered := numLogEntriesBuffered s - 1,
                 contexts := (contexts s)[i := Some (c\<lparr>entry := e, bufferedEntries := r\<rparr>)],
                 heap := heap s @ [i], driver := Running\<rparr>"
  have "Inv ?sa"
  proof (rule Inv_local[OF assms(2) i])
    show "wf ?sa"
      using wf i nh by (auto simp: wf_def on_src_simps)
    show "src_inv ?sa i"
      using ok_next[OF ok t_resume_next(6)] i wf
      by (simp add: src_inv_def wf_def)
  qed (auto simp: t_resume_next(4) on_src_simps)
  then show ?thesis
    unfolding t_resume_next(2) by (intro Inv_bufferLogs) (simp_all add: i)
next
  case t_abort_done
  note wf = Inv_wf[OF assms(2)]
  have "src_inv (s\<lparr>driver := Failed\<rparr>) j" if j: "j < length (logSources s)" for j
  proof -
    from assms(2) j have sj: "src_inv s j" by (simp add: Inv_def)
    show ?thesis
      by (rule src_inv_frame[OF sj]) (simp_all add: on_src_simps t_abort_done(3))
  qed
  then show ?thesis
    unfolding t_abort_done(2) using wf by (simp add: Inv_def wf_def on_src_simps)
next
  case (t_abort_call i)
  note wf = Inv_wf[OF assms(2)]
  have "src_inv (s\<lparr>driver := Failed\<rparr>) j" if j: "j < length (logSources s)" for j
  proof -
    from assms(2) j have sj: "src_inv s j" by (simp add: Inv_def)
    show ?thesis
      by (rule src_inv_frame[OF sj]) (simp_all add: on_src_simps t_abort_call(4))
  qed
  then show ?thesis
    unfolding t_abort_call(2) using wf by (simp add: Inv_def wf_def on_src_simps)
next
  case (t_abort_case1 i c e r)
  note i = t_abort_case1(3)
  note wf = Inv_wf[OF assms(2)]
  note ok = Inv_src[OF assms(2) i, unfolded t_abort_case1(4,7)]
  let ?sa = "s\<lparr>heap := remove1 i (heap s), printer := printer s @ [Print (entry c)],
              driver := Failed\<rparr>"
  show ?thesis
    unfolding t_abort_case1(2)
  proof (rule Inv_local[OF assms(2) i])
    show "wf ?sa"
      using wf i by (auto simp: wf_def on_src_simps)
    show "src_inv ?sa i"
      using ok_case2_rejected ok t_abort_case1(5) i wf
      by (simp add: src_inv_def wf_def t_abort_case1(7))
  qed (auto simp: t_abort_case1(4) on_src_simps)
next
  case (t_abort_resume i c e r)
  note i = t_abort_resume(3)
  note wf = Inv_wf[OF assms(2)]
  note ok = Inv_src[OF assms(2) i, unfolded t_abort_resume(4,5)]
  show ?thesis
    unfolding t_abort_resume(2)
  proof (rule Inv_local[OF assms(2) i])
    show "wf (s\<lparr>driver := Failed\<rparr>)"
      using wf i by (auto simp: wf_def on_src_simps)
    show "src_inv (s\<lparr>driver := Failed\<rparr>) i"
      using ok_abort_resume[OF ok] i wf
      by (simp add: src_inv_def wf_def t_abort_resume(5))
  qed (auto simp: t_abort_resume(4) on_src_simps)
qed

section \<open>Runs\<close>

lemma bufferLogs_frame:
  "heap (bufferLogs mx i s) = heap s"
  "driver (bufferLogs mx i s) = driver s"
  "printer (bufferLogs mx i s) = printer s"
  "settled (bufferLogs mx i s) = settled s"
  "length (logSources (bufferLogs mx i s)) = length (logSources s)"
  "length (contexts (bufferLogs mx i s)) = length (contexts s)"
  "stack (bufferLogs mx i s) = stack s"
  by (cases mx i s rule: bufferLogs_cases; simp)+

lemma bufferLogs_other:
  "j \<noteq> i \<Longrightarrow> logSources (bufferLogs mx i s) ! j = logSources s ! j"
  "j \<noteq> i \<Longrightarrow> contexts (bufferLogs mx i s) ! j = contexts s ! j"
  by (cases mx i s rule: bufferLogs_cases; simp)+

lemma Inv_init: "Inv (init srcs)"
proof -
  have "src_inv (init srcs) j" if "j < length srcs" for j
    using that unfolding src_inv_def src_ok_def Let_def
    by (cases "srcs ! j") (simp_all add: init_def popAsync_def on_src_simps)
  then show ?thesis
    by (simp add: Inv_def wf_def init_def on_src_simps)
qed

lemma Inv_stack [simp]: "Inv (s\<lparr>stack := n\<rparr>) = Inv s"
  by (simp add: Inv_def wf_def src_inv_def)

lemma step_Inv:
  assumes "Inv s" "step lim mx ev s = Some s'"
  shows "Inv s'"
  using Inv_trans[OF step_trans[OF assms] assms(1)] by simp

lemma exec_invariant:
  assumes "exec lim mx evs s0 = Some s" "Inv s0" "P s0"
    and "\<And>ev s s'. Inv s \<Longrightarrow> P s \<Longrightarrow> trans mx ev s s' \<Longrightarrow> P s'"
    and "\<And>s n. P (s\<lparr>stack := n\<rparr>) = P s"
  shows "Inv s \<and> P s"
  using assms(1,2,3)
proof (induction evs arbitrary: s0)
  case Nil
  then show ?case by simp
next
  case (Cons ev evs)
  from Cons.prems(1) obtain s1 where s1: "step lim mx ev s0 = Some s1" "exec lim mx evs s1 = Some s"
    by (auto split: option.splits)
  have t: "trans mx ev s0 (s1\<lparr>stack := stack s0\<rparr>)" by (rule step_trans[OF Cons.prems(2) s1(1)])
  have "P (s1\<lparr>stack := stack s0\<rparr>)" by (rule assms(4)[OF Cons.prems(2,3) t])
  then have p: "P s1" by (simp only: assms(5))
  show ?case
    by (rule Cons.IH[OF s1(2) step_Inv[OF Cons.prems(2) s1(1)] p])
qed

lemma exec_Inv: "exec lim mx evs (init srcs) = Some s \<Longrightarrow> Inv s"
  using exec_invariant[of lim mx evs "init srcs" s "\<lambda>_. True"] Inv_init by simp

lemma exec_length:
  assumes "exec lim mx evs (init srcs) = Some s"
  shows "length (logSources s) = length srcs"
proof -
  have "Inv s \<and> length (logSources s) = length srcs"
  proof (rule exec_invariant[OF assms Inv_init])
    show "length (logSources (init srcs)) = length srcs" by (simp add: init_def)
  next
    fix ev s s' assume a: "Inv s" "length (logSources s) = length srcs" and t: "trans mx ev s s'"
    from t show "length (logSources s') = length srcs"
      by (cases rule: trans.cases) (simp_all add: settle_def bufferLogs_frame a(2))
  qed simp
  then show ?thesis ..
qed

text \<open>
  C7: at every point of a run, every source has at most one \<open>popAsync()\<close> of the merge
  outstanding; a further fetch of a source is issued only once the previous one has settled.
\<close>

theorem one_fetch_per_source:
  assumes "exec lim mx evs (init srcs) = Some s" "j < length srcs"
  shows "length (outstanding (logSources s ! j)) \<le> 1"
proof -
  from exec_Inv[OF assms(1)] exec_length[OF assms(1)] assms(2) have "src_inv s j"
    by (simp add: Inv_def)
  then show ?thesis by (simp add: src_inv_def src_ok_def Let_def)
qed

theorem one_fetch_per_source_witness:
  "exec stackFrames 1 (take 5 scheduleD) (init scenarioD) \<noteq> None \<and> (1::nat) < length scenarioD
   \<and> length (outstanding (logSources (the (exec stackFrames 1 (take 5 scheduleD) (init scenarioD))) ! 1)) \<le> 1"
proof -
  have ne: "exec stackFrames 1 (take 5 scheduleD) (init scenarioD) \<noteq> None" by code_simp
  then obtain s where s: "exec stackFrames 1 (take 5 scheduleD) (init scenarioD) = Some s" by blast
  have j: "(1::nat) < length scenarioD" by code_simp
  from one_fetch_per_source[OF s j] ne j s show ?thesis by simp
qed

section \<open>The buffer counter\<close>

lemma sum_list_map_update:
  fixes f :: "'a \<Rightarrow> int"
  shows "i < length xs \<Longrightarrow> sum_list (map f (xs[i := x])) = sum_list (map f xs) - f (xs ! i) + f x"
proof (induction xs arbitrary: i)
  case Nil
  then show ?case by simp
next
  case (Cons a xs)
  then show ?case by (cases i) simp_all
qed

lemma counted_update:
  assumes "counted s" "i < length (contexts s)" "contexts s ! i = old"
    "k = numLogEntriesBuffered s - weight old + weight (Some c)"
  shows "counted (s\<lparr>contexts := (contexts s)[i := Some c], numLogEntriesBuffered := k\<rparr>)"
  using assms by (simp add: counted_def sum_list_map_update)

lemma counted_bufferLogs:
  assumes "counted s" "i < length (contexts s)"
  shows "counted (bufferLogs mx i s)"
proof (cases mx i s rule: bufferLogs_cases)
  case same
  then show ?thesis using assms by simp
next
  case (issue c)
  then show ?thesis using assms
    by (simp add: counted_def sum_list_map_update weight_def)
qed

lemma src_ok_prefetch_pending:
  assumes "src_ok i src (Some c) h d sg" "outstanding src = [(Prefetch, v)]"
  shows "nextEntryPromise c = Some Pending" "\<not> drained c"
  using assms unfolding src_ok_def Let_def by auto

lemma counted_trans:
  assumes "trans mx ev s s'" "Inv s" "counted s"
  shows "counted s'"
proof -
  have len: "length (contexts s) = length (logSources s)"
    using Inv_wf[OF assms(2)] by (simp add: wf_def)
  from assms(1) show ?thesis
  proof (cases rule: trans.cases)
    case (t_init_none i)
    then show ?thesis using assms(3) by (simp add: counted_def settle_def)
  next
    case (t_init_some i e)
    have "counted ((settle i [] (Fulfilled (Some e)) s)
                 \<lparr>contexts := (contexts s)[i := Some (freshContext e)], heap := heap s @ [i]\<rparr>)"
      using assms(3) t_init_some(3,4) len
      by (simp add: counted_def settle_def sum_list_map_update weight_def freshContext_def)
    then show ?thesis unfolding t_init_some(2)
      by (rule counted_bufferLogs) (simp add: settle_def len t_init_some(3))
  next
    case (t_prefetch i c v c')
    note p = src_ok_prefetch_pending[OF Inv_src[OF assms(2) t_prefetch(3), unfolded t_prefetch(4)] t_prefetch(5)]
    have "counted ((settle i [] (Fulfilled v) s)
                 \<lparr>contexts := (contexts s)[i := Some (c'\<lparr>nextEntryPromise := None\<rparr>)],
                  driver := (if driver s = AwaitPrefetch i then Resumable i else driver s)\<rparr>)"
      using assms(3) t_prefetch(3,4,6) len p
      by (cases v) (simp_all add: counted_def settle_def sum_list_map_update weight_def)
    then show ?thesis unfolding t_prefetch(2)
      by (rule counted_bufferLogs) (simp add: settle_def len t_prefetch(3))
  next
    case (t_direct_none i c)
    then show ?thesis using assms(3) by (simp add: counted_def settle_def)
  next
    case (t_direct_some i c e)
    have "counted ((settle i [] (Fulfilled (Some e)) s)
                 \<lparr>contexts := (contexts s)[i := Some (c\<lparr>entry := e\<rparr>)],
                  heap := heap s @ [i], driver := Running\<rparr>)"
      using assms(3) t_direct_some(3,4) len
      by (simp add: counted_def settle_def sum_list_map_update weight_def)
    then show ?thesis unfolding t_direct_some(2)
      by (rule counted_bufferLogs) (simp add: settle_def len t_direct_some(3))
  next
    case (t_reject_initial i v)
    then show ?thesis using assms(3) by (simp add: counted_def settle_def)
  next
    case (t_reject_prefetch i c v)
    note p = src_ok_prefetch_pending[OF Inv_src[OF assms(2) t_reject_prefetch(3), unfolded t_reject_prefetch(4)] t_reject_prefetch(5)]
    show ?thesis
      using assms(3) t_reject_prefetch(2,3,4) len p
      by (simp add: counted_def settle_def sum_list_map_update weight_def)
  next
    case (t_reject_direct i c v)
    then show ?thesis using assms(3) by (simp add: counted_def settle_def)
  next
    case t_start
    then show ?thesis using assms(3) by (simp add: counted_def)
  next
    case t_done
    then show ?thesis using assms(3) by (simp add: counted_def)
  next
    case (t_case1 i c e r)
    have "counted (s\<lparr>printer := printer s @ [Print (entry c)],
                 numLogEntriesBuffered := numLogEntriesBuffered s - 1,
                 contexts := (contexts s)[i := Some (c\<lparr>entry := e, bufferedEntries := r\<rparr>)],
                 heap := remove1 i (heap s) @ [i], driver := Running\<rparr>)"
      using assms(3) t_case1(3,7,8) len
      by (simp add: counted_def sum_list_map_update weight_def)
    then show ?thesis unfolding t_case1(2)
      by (rule counted_bufferLogs) (simp add: len t_case1(3))
  next
    case (t_case2 i c)
    then show ?thesis using assms(3) by (simp add: counted_def)
  next
    case (t_case2_rejected i c)
    then show ?thesis using assms(3) by (simp add: counted_def)
  next
    case (t_case3 i c)
    then show ?thesis using assms(3) by (simp add: counted_def)
  next
    case (t_case4 i c)
    then show ?thesis using assms(3) by (simp add: counted_def)
  next
    case (t_resume_drop i c)
    then show ?thesis using assms(3) by (simp add: counted_def)
  next
    case (t_resume_next i c e r)
    have "counted (s\<lparr>numLogEntriesBuffered := numLogEntriesBuffered s - 1,
                 contexts := (contexts s)[i := Some (c\<lparr>entry := e, bufferedEntries := r\<rparr>)],
                 heap := heap s @ [i], driver := Running\<rparr>)"
      using assms(3) t_resume_next(3,5,6) len
      by (simp add: counted_def sum_list_map_update weight_def)
    then show ?thesis unfolding t_resume_next(2)
      by (rule counted_bufferLogs) (simp add: len t_resume_next(3))
  next
    case t_abort_done
    then show ?thesis using assms(3) by (simp add: counted_def)
  next
    case (t_abort_call i)
    then show ?thesis using assms(3) by (simp add: counted_def)
  next
    case (t_abort_case1 i c e r)
    then show ?thesis using assms(3) by (simp add: counted_def)
  next
    case (t_abort_resume i c e r)
    then show ?thesis using assms(3) by (simp add: counted_def)
  qed
qed

lemma bounded_bufferLogs:
  "numLogEntriesBuffered s \<le> mx \<Longrightarrow> numLogEntriesBuffered (bufferLogs mx i s) \<le> mx"
  by (cases mx i s rule: bufferLogs_cases) simp_all

lemma bounded_trans:
  assumes "trans mx ev s s'" "numLogEntriesBuffered s \<le> mx"
  shows "numLogEntriesBuffered s' \<le> mx"
  using assms(1)
  by (cases rule: trans.cases) (use assms(2) in \<open>simp_all add: settle_def bounded_bufferLogs\<close>)

lemma exec_counted:
  assumes "exec lim mx evs (init srcs) = Some s" "0 \<le> mx"
  shows "counted s" "numLogEntriesBuffered s \<le> mx"
proof -
  have "Inv s \<and> (counted s \<and> numLogEntriesBuffered s \<le> mx)"
  proof (rule exec_invariant[OF assms(1) Inv_init])
    show "counted (init srcs) \<and> numLogEntriesBuffered (init srcs) \<le> mx"
      using assms(2) by (simp add: counted_def init_def weight_def o_def)
  next
    fix ev s s' assume "Inv s" "counted s \<and> numLogEntriesBuffered s \<le> mx" "trans mx ev s s'"
    then show "counted s' \<and> numLogEntriesBuffered s' \<le> mx"
      using counted_trans bounded_trans by blast
  qed (simp add: counted_def)
  then show "counted s" "numLogEntriesBuffered s \<le> mx" by simp_all
qed

lemma sum_list_pointwise_le:
  fixes f :: "'a \<Rightarrow> int" and g :: "'b \<Rightarrow> int" and h :: "'a \<Rightarrow> int"
  assumes "length xs = length ys"
    and "\<And>j. j < length xs \<Longrightarrow> f (xs ! j) + g (ys ! j) \<le> h (xs ! j)"
  shows "sum_list (map f xs) + sum_list (map g ys) \<le> sum_list (map h xs)"
  using assms
proof (induction xs ys rule: list_induct2)
  case Nil
  then show ?case by simp
next
  case (Cons x xs y ys)
  have "f x + g y \<le> h x" using Cons.prems[of 0] by simp
  moreover have "sum_list (map f xs) + sum_list (map g ys) \<le> sum_list (map h xs)"
  proof (rule Cons.IH)
    fix j assume "j < length xs"
    then show "f (xs ! j) + g (ys ! j) \<le> h (xs ! j)" using Cons.prems[of "Suc j"] by simp
  qed
  ultimately show ?case by simp
qed

lemma src_ok_weight:
  assumes "src_ok j src ctx h d sg"
  shows "int (case ctx of None \<Rightarrow> 0 | Some c \<Rightarrow> length (bufferedEntries c))
         + int (length (filter (\<lambda>f. fst f = Prefetch) (outstanding src))) \<le> weight ctx"
proof (cases "outstanding src")
  case Nil
  then show ?thesis by (cases ctx) (simp_all add: weight_def)
next
  case (Cons f fs)
  with assms have fs: "fs = []" by (simp add: src_ok_def Let_def)
  obtain k v where f: "f = (k, v)" by (cases f)
  show ?thesis
  proof (cases ctx)
    case None
    with assms Cons fs f show ?thesis by (auto simp: src_ok_def Let_def weight_def)
  next
    case (Some c)
    with assms Cons fs f show ?thesis by (cases k) (auto simp: src_ok_def Let_def weight_def)
  qed
qed

lemma buffered_le_counter:
  assumes "exec lim mx evs (init srcs) = Some s" "0 \<le> mx"
  shows "int (totalBuffered s) + int (prefetchesInFlight s) \<le> numLogEntriesBuffered s"
proof -
  note inv = exec_Inv[OF assms(1)]
  have len: "length (contexts s) = length (logSources s)"
    using Inv_wf[OF inv] by (simp add: wf_def)
  have "sum_list (map (\<lambda>ctx. int (case ctx of None \<Rightarrow> 0 | Some c \<Rightarrow> length (bufferedEntries c))) (contexts s))
        + sum_list (map (\<lambda>src. int (length (filter (\<lambda>f. fst f = Prefetch) (outstanding src)))) (logSources s))
        \<le> sum_list (map weight (contexts s))"
  proof (rule sum_list_pointwise_le[OF len])
    fix j assume "j < length (contexts s)"
    with len have j: "j < length (logSources s)" by simp
    show "int (case contexts s ! j of None \<Rightarrow> 0 | Some c \<Rightarrow> length (bufferedEntries c))
         + int (length (filter (\<lambda>f. fst f = Prefetch) (outstanding (logSources s ! j))))
         \<le> weight (contexts s ! j)"
      by (rule src_ok_weight[OF Inv_src[OF inv j]])
  qed
  moreover have "int (totalBuffered s) =
      sum_list (map (\<lambda>ctx. int (case ctx of None \<Rightarrow> 0 | Some c \<Rightarrow> length (bufferedEntries c))) (contexts s))"
    unfolding totalBuffered_def by (simp add: sum_list_of_nat[symmetric] o_def)
  moreover have "int (prefetchesInFlight s) =
      sum_list (map (\<lambda>src. int (length (filter (\<lambda>f. fst f = Prefetch) (outstanding src)))) (logSources s))"
    unfolding prefetchesInFlight_def by (simp add: sum_list_of_nat[symmetric] o_def)
  ultimately show ?thesis using exec_counted(1)[OF assms] by (simp add: counted_def)
qed

text \<open>
  C3: at every point of a run, the read-ahead buffers of all contexts together hold at
  most as many entries as the ceiling (\<open>MAX_LOG_ENTRY_BUFFER_SIZE\<close> in the module, any
  ceiling that is not negative here).
\<close>

theorem buffers_within_ceiling:
  assumes "exec lim mx evs (init srcs) = Some s" "0 \<le> mx"
  shows "int (totalBuffered s) \<le> mx"
  using buffered_le_counter[OF assms] exec_counted(2)[OF assms] by simp

theorem buffers_within_ceiling_witness:
  "exec stackFrames 1 (take 6 scheduleD) (init scenarioD) \<noteq> None \<and> (0::int) \<le> 1
   \<and> int (totalBuffered (the (exec stackFrames 1 (take 6 scheduleD) (init scenarioD)))) \<le> 1"
proof -
  have ne: "exec stackFrames 1 (take 6 scheduleD) (init scenarioD) \<noteq> None" by code_simp
  then obtain s where s: "exec stackFrames 1 (take 6 scheduleD) (init scenarioD) = Some s" by blast
  have m: "(0::int) \<le> 1" by simp
  from buffers_within_ceiling[OF s m] ne s show ?thesis by simp
qed

text \<open>
  C6, as stated: the counter \<open>numLogEntriesBuffered\<close> equals the number of entries in all
  read-ahead buffers. It does not: \<open>bufferLogs\<close> increments the counter when it issues a
  fetch (line 33), before anything is buffered. After the first initial fetch of the two
  sources of scenario D has been fulfilled, with the ceiling of the module, the counter is
  1 and every buffer is empty.
\<close>

theorem counter_equals_buffered_counterexample:
  "exec stackFrames MAX_LOG_ENTRY_BUFFER_SIZE [Fulfil 0 Initial] (init scenarioD) \<noteq> None
   \<and> numLogEntriesBuffered (the (exec stackFrames MAX_LOG_ENTRY_BUFFER_SIZE [Fulfil 0 Initial] (init scenarioD))) = 1
   \<and> totalBuffered (the (exec stackFrames MAX_LOG_ENTRY_BUFFER_SIZE [Fulfil 0 Initial] (init scenarioD))) = 0"
  by code_simp

text \<open>
  C9: \<open>getNextEntry\<close> never shifts an empty buffer, so \<open>entry\<close> is never \<open>undefined\<close>;
  and whenever the continuation of CASE 2 is about to run, the context it waited for has a
  buffered entry or is marked drained.
\<close>

theorem promoted_head_defined:
  assumes "exec lim mx evs (init srcs) = Some s"
  shows "driver s \<noteq> UndefinedHead
         \<and> (\<forall>i. driver s = Resumable i \<longrightarrow>
               (\<exists>c. contexts s ! i = Some c \<and> (bufferedEntries c \<noteq> [] \<or> drained c)))"
proof -
  note inv = exec_Inv[OF assms]
  have "\<exists>c. contexts s ! i = Some c \<and> (bufferedEntries c \<noteq> [] \<or> drained c)"
    if d: "driver s = Resumable i" for i
  proof -
    have i: "i < length (logSources s)"
      using Inv_wf[OF inv] d by (simp add: wf_def on_src_simps)
    from Inv_src[OF inv i] d show ?thesis
      by (cases "contexts s ! i") (simp_all add: src_ok_def Let_def on_src_simps)
  qed
  then show ?thesis using Inv_wf[OF inv] by (simp add: wf_def)
qed

theorem promoted_head_defined_witness:
  "exec stackFrames 1 (take 5 scheduleD) (init scenarioD) \<noteq> None
   \<and> driver (the (exec stackFrames 1 (take 5 scheduleD) (init scenarioD))) = Resumable 0
   \<and> contexts (the (exec stackFrames 1 (take 5 scheduleD) (init scenarioD))) ! 0 \<noteq> None
   \<and> bufferedEntries (the (contexts (the (exec stackFrames 1 (take 5 scheduleD) (init scenarioD))) ! 0)) \<noteq> []"
proof -
  have ne: "exec stackFrames 1 (take 5 scheduleD) (init scenarioD) \<noteq> None" by code_simp
  then obtain s where s: "exec stackFrames 1 (take 5 scheduleD) (init scenarioD) = Some s" by blast
  have d: "driver (the (exec stackFrames 1 (take 5 scheduleD) (init scenarioD))) = Resumable 0" by code_simp
  have nd: "\<not> drained (the (contexts (the (exec stackFrames 1 (take 5 scheduleD) (init scenarioD))) ! 0))"
    by code_simp
  from promoted_head_defined[OF s] ne s d nd show ?thesis by auto
qed

text \<open>
  C10: at every point of a run, the entries held by the contexts, in their read-ahead
  buffers and as head entries, are at most the ceiling plus the number of sources: a head
  entry is not counted in \<open>numLogEntriesBuffered\<close>.
\<close>

theorem held_entries_bound:
  assumes "exec lim mx evs (init srcs) = Some s" "0 \<le> mx"
  shows "int (totalBuffered s + headsHeld s) \<le> mx + int (length srcs)"
proof -
  have "length (contexts s) = length srcs"
    using Inv_wf[OF exec_Inv[OF assms(1)]] exec_length[OF assms(1)] by (simp add: wf_def)
  then have "headsHeld s \<le> length srcs"
    unfolding headsHeld_def using length_filter_le[of "\<lambda>c. c \<noteq> None" "contexts s"] by simp
  then show ?thesis using buffered_le_counter[OF assms] exec_counted(2)[OF assms] by simp
qed

theorem held_entries_bound_witness:
  "exec stackFrames 1 (take 6 scheduleD) (init scenarioD) \<noteq> None \<and> (0::int) \<le> 1
   \<and> int (totalBuffered (the (exec stackFrames 1 (take 6 scheduleD) (init scenarioD)))
          + headsHeld (the (exec stackFrames 1 (take 6 scheduleD) (init scenarioD))))
      \<le> 1 + int (length scenarioD)"
proof -
  have ne: "exec stackFrames 1 (take 6 scheduleD) (init scenarioD) \<noteq> None" by code_simp
  then obtain s where s: "exec stackFrames 1 (take 6 scheduleD) (init scenarioD) = Some s" by blast
  have m: "(0::int) \<le> 1" by simp
  from held_entries_bound[OF s m] ne s show ?thesis by simp
qed

section \<open>Order of the printed entries\<close>

lemma values_of_simps [simp]:
  "values_of [] = []"
  "values_of (outs @ [(k, None)]) = values_of outs"
  "values_of (outs @ [(k, Some e)]) = values_of outs @ [e]"
  "values_of [(k, None)] = []"
  "values_of [(k, Some e)] = [e]"
  by (simp_all add: values_of_def)

lemma pend_popAsync [simp]: "pend (popAsync k src) ctx h = pend src ctx h"
  by (cases "remaining src") (simp_all add: pend_def popAsync_def)

lemma printed_simps [simp]:
  "printed (s\<lparr>printer := printer s @ [Print e]\<rparr>) = printed s @ [e]"
  "printed (s\<lparr>printer := printer s @ [Done]\<rparr>) = printed s"
  by (simp_all add: printed_def)

lemma printed_cong: "printer s' = printer s \<Longrightarrow> printed s' = printed s"
  by (simp add: printed_def)

lemma printed_stack [simp]: "printed (s\<lparr>stack := n\<rparr>) = printed s"
  by (simp add: printed_def)

lemma unprinted_stack [simp]: "unprinted (s\<lparr>stack := n\<rparr>) j = unprinted s j"
  by (simp add: unprinted_def)

lemma ordered_stack [simp]: "ordered (s\<lparr>stack := n\<rparr>) = ordered s"
  by (simp add: ordered_def)

lemma printed_bufferLogs [simp]: "printed (bufferLogs mx i s) = printed s"
  by (rule printed_cong) (simp add: bufferLogs_frame)

lemma unprinted_bufferLogs:
  assumes "i < length (logSources s)" "length (contexts s) = length (logSources s)"
  shows "unprinted (bufferLogs mx i s) j = unprinted s j"
proof (cases mx i s rule: bufferLogs_cases)
  case same
  then show ?thesis by simp
next
  case (issue c)
  show ?thesis
  proof (cases "j = i")
    case True
    then show ?thesis using issue assms by (simp add: unprinted_def) (simp add: pend_def)
  next
    case False
    then show ?thesis using issue assms by (simp add: unprinted_def)
  qed
qed

lemma quiet_bufferLogs:
  assumes "quiet s sa" "i < length (logSources sa)" "length (contexts sa) = length (logSources sa)"
  shows "quiet s (bufferLogs mx i sa)"
  using assms by (simp add: quiet_def unprinted_bufferLogs bufferLogs_frame)

lemma prints_bufferLogs:
  assumes "prints k s sa" "i < length (logSources sa)" "length (contexts sa) = length (logSources sa)"
  shows "prints k s (bufferLogs mx i sa)"
  using assms by (simp add: prints_def unprinted_bufferLogs bufferLogs_frame)

lemma quiet_local:
  assumes "i < length (logSources s)" "printer s' = printer s"
    and "pend (logSources s' ! i) (contexts s' ! i) (i \<in> set (heap s'))
         = pend (logSources s ! i) (contexts s ! i) (i \<in> set (heap s))"
    and "\<And>j. j \<noteq> i \<Longrightarrow> j < length (logSources s) \<Longrightarrow>
           logSources s' ! j = logSources s ! j \<and> contexts s' ! j = contexts s ! j
           \<and> (j \<in> set (heap s') \<longleftrightarrow> j \<in> set (heap s))"
  shows "quiet s s'"
  unfolding quiet_def
proof (intro conjI allI impI)
  show "printed s' = printed s" using assms(2) by (rule printed_cong)
next
  fix j assume "j < length (logSources s)"
  then show "unprinted s' j = unprinted s j"
    using assms(3) assms(4)[of j] by (cases "j = i") (simp_all add: unprinted_def)
qed

lemma prints_local:
  assumes "i < length (logSources s)" "i \<in> set (heap s)" "earliest s i" "driver s = Running"
    and "contexts s ! i = Some c" "printer s' = printer s @ [Print (entry c)]"
    and "pend (logSources s ! i) (Some c) True
         = entry c # pend (logSources s' ! i) (contexts s' ! i) (i \<in> set (heap s'))"
    and "\<And>j. j \<noteq> i \<Longrightarrow> j < length (logSources s) \<Longrightarrow>
           logSources s' ! j = logSources s ! j \<and> contexts s' ! j = contexts s ! j
           \<and> (j \<in> set (heap s') \<longleftrightarrow> j \<in> set (heap s))"
  shows "prints i s s'"
proof -
  have "printed s' = printed s @ [entry c]" using assms(6) by (simp add: printed_def)
  moreover have "unprinted s i = entry c # unprinted s' i"
    using assms(2,5,7) by (simp add: unprinted_def)
  moreover have "unprinted s' j = unprinted s j" if "j < length (logSources s)" "j \<noteq> i" for j
    using assms(8)[of j] that by (simp add: unprinted_def)
  ultimately show ?thesis using assms(1-5) by (simp add: prints_def)
qed

lemma loses_local:
  assumes "i < length (logSources s)" "printer s' = printer s"
    and "contexts s' ! i = contexts s ! i \<or>
         (\<exists>c. contexts s ! i = Some c \<and> contexts s' ! i = Some (c\<lparr>nextEntryPromise := Some Rejected\<rparr>))"
    and "i \<in> set (heap s') \<longleftrightarrow> i \<in> set (heap s)"
    and "outstanding (logSources s ! i) = [(k, v)]"
    and "logSources s' ! i = (logSources s ! i)\<lparr>outstanding := []\<rparr>"
    and "\<And>j. j \<noteq> i \<Longrightarrow> j < length (logSources s) \<Longrightarrow>
           logSources s' ! j = logSources s ! j \<and> contexts s' ! j = contexts s ! j
           \<and> (j \<in> set (heap s') \<longleftrightarrow> j \<in> set (heap s))"
  shows "loses i s s'"
proof -
  let ?A = "case contexts s ! i of None \<Rightarrow> []
            | Some c \<Rightarrow> (if i \<in> set (heap s) then [entry c] else []) @ bufferedEntries c"
  have "printed s' = printed s" using assms(2) by (rule printed_cong)
  moreover have "unprinted s i = ?A @ values_of [(k, v)] @ remaining (logSources s ! i)"
    using assms(5) by (simp add: unprinted_def pend_def)
  moreover have "unprinted s' i = ?A @ remaining (logSources s ! i)"
    using assms(3,4,6) by (auto simp: unprinted_def pend_def)
  moreover have "unprinted s' j = unprinted s j" if "j < length (logSources s)" "j \<noteq> i" for j
    using assms(7)[of j] that by (simp add: unprinted_def)
  ultimately show ?thesis using assms(1) unfolding loses_def by blast
qed

lemma src_ok_direct_buffer:
  "src_ok i src (Some c) h (AwaitDirect i) sg \<Longrightarrow> bufferedEntries c = [] \<and> \<not> h"
  unfolding src_ok_def Let_def by (simp add: on_src_simps)

lemma trans_effect:
  assumes "trans mx ev s s'" "Inv s"
  shows "effect ev s s'"
proof -
  note wf = Inv_wf[OF assms(2)]
  have len: "length (contexts s) = length (logSources s)" using wf by (simp add: wf_def)
  have dist: "distinct (heap s)" using wf by (simp add: wf_def)
  from assms(1) show ?thesis
  proof (cases rule: trans.cases)
    case (t_init_none i)
    have "quiet s s'" unfolding t_init_none(2)
      by (rule quiet_local[OF t_init_none(3)])
         (use t_init_none(3,4,5) len in \<open>simp_all add: settle_def pend_def\<close>)
    then show ?thesis by (simp add: effect_def t_init_none(1))
  next
    case (t_init_some i e)
    note ok = Inv_src[OF assms(2) t_init_some(3), unfolded t_init_some(4)]
    have "quiet s ((settle i [] (Fulfilled (Some e)) s)
                 \<lparr>contexts := (contexts s)[i := Some (freshContext e)], heap := heap s @ [i]\<rparr>)"
      by (rule quiet_local[OF t_init_some(3)])
         (use t_init_some(3,4,5) len in \<open>simp_all add: settle_def pend_def freshContext_def\<close>)
    then have "quiet s s'" unfolding t_init_some(2)
      by (rule quiet_bufferLogs) (simp_all add: settle_def len t_init_some(3))
    then show ?thesis by (simp add: effect_def t_init_some(1))
  next
    case (t_prefetch i c v c')
    have "quiet s ((settle i [] (Fulfilled v) s)
                 \<lparr>contexts := (contexts s)[i := Some (c'\<lparr>nextEntryPromise := None\<rparr>)],
                  driver := (if driver s = AwaitPrefetch i then Resumable i else driver s)\<rparr>)"
    proof (cases v)
      case None
      show ?thesis
        by (rule quiet_local[OF t_prefetch(3)])
           (use t_prefetch(3,4,5,6) len None in \<open>simp_all add: settle_def pend_def\<close>)
    next
      case (Some e)
      show ?thesis
        by (rule quiet_local[OF t_prefetch(3)])
           (use t_prefetch(3,4,5,6) len Some in \<open>simp_all add: settle_def pend_def\<close>)
    qed
    then have "quiet s s'" unfolding t_prefetch(2)
      by (rule quiet_bufferLogs) (simp_all add: settle_def len t_prefetch(3))
    then show ?thesis by (simp add: effect_def t_prefetch(1))
  next
    case (t_direct_none i c)
    have "quiet s s'" unfolding t_direct_none(2)
      by (rule quiet_local[OF t_direct_none(3)])
         (use t_direct_none(3,4,6) len in \<open>simp_all add: settle_def pend_def\<close>)
    then show ?thesis by (simp add: effect_def t_direct_none(1))
  next
    case (t_direct_some i c e)
    note b = src_ok_direct_buffer[OF Inv_src[OF assms(2) t_direct_some(3), unfolded t_direct_some(4,5)]]
    have "quiet s ((settle i [] (Fulfilled (Some e)) s)
                 \<lparr>contexts := (contexts s)[i := Some (c\<lparr>entry := e\<rparr>)],
                  heap := heap s @ [i], driver := Running\<rparr>)"
      by (rule quiet_local[OF t_direct_some(3)])
         (use t_direct_some(3,4,6) len b in \<open>simp_all add: settle_def pend_def\<close>)
    then have "quiet s s'" unfolding t_direct_some(2)
      by (rule quiet_bufferLogs) (simp_all add: settle_def len t_direct_some(3))
    then show ?thesis by (simp add: effect_def t_direct_some(1))
  next
    case (t_reject_initial i v)
    have "loses i s s'" unfolding t_reject_initial(2)
      by (rule loses_local[OF t_reject_initial(3) _ _ _ t_reject_initial(5)])
         (use t_reject_initial(3) len in \<open>simp_all add: settle_def\<close>)
    then show ?thesis by (simp add: effect_def t_reject_initial(1))
  next
    case (t_reject_prefetch i c v)
    have "loses i s s'" unfolding t_reject_prefetch(2)
      by (rule loses_local[OF t_reject_prefetch(3) _ _ _ t_reject_prefetch(5)])
         (use t_reject_prefetch(3,4) len in \<open>simp_all add: settle_def\<close>)
    then show ?thesis by (simp add: effect_def t_reject_prefetch(1))
  next
    case (t_reject_direct i c v)
    have "loses i s s'" unfolding t_reject_direct(2)
      by (rule loses_local[OF t_reject_direct(3) _ _ _ t_reject_direct(6)])
         (use t_reject_direct(3) len in \<open>simp_all add: settle_def\<close>)
    then show ?thesis by (simp add: effect_def t_reject_direct(1))
  next
    case t_start
    then show ?thesis by (simp add: effect_def quiet_def unprinted_def printed_def)
  next
    case t_done
    then show ?thesis by (simp add: effect_def quiet_def unprinted_def printed_def)
  next
    case (t_case1 i c e r)
    have "prints i s (s\<lparr>printer := printer s @ [Print (entry c)],
                 numLogEntriesBuffered := numLogEntriesBuffered s - 1,
                 contexts := (contexts s)[i := Some (c\<lparr>entry := e, bufferedEntries := r\<rparr>)],
                 heap := remove1 i (heap s) @ [i], driver := Running\<rparr>)"
      by (rule prints_local[OF t_case1(3,5,6,4,7)])
         (use t_case1(3,8) len in \<open>simp_all add: pend_def\<close>)
    then have "prints i s s'" unfolding t_case1(2)
      by (rule prints_bufferLogs) (simp_all add: len t_case1(3))
    then show ?thesis by (simp add: effect_def t_case1(1))
  next
    case (t_case2 i c)
    have "prints i s s'" unfolding t_case2(2)
      by (rule prints_local[OF t_case2(3,5,6,4,7)])
         (use t_case2(3,7) len dist in \<open>simp_all add: pend_def\<close>)
    then show ?thesis by (simp add: effect_def t_case2(1))
  next
    case (t_case2_rejected i c)
    have "prints i s s'" unfolding t_case2_rejected(2)
      by (rule prints_local[OF t_case2_rejected(3,5,6,4,7)])
         (use t_case2_rejected(3,7) len dist in \<open>simp_all add: pend_def\<close>)
    then show ?thesis by (simp add: effect_def t_case2_rejected(1))
  next
    case (t_case3 i c)
    have "prints i s s'" unfolding t_case3(2)
      by (rule prints_local[OF t_case3(3,5,6,4,7)])
         (use t_case3(3,7) len dist in \<open>simp_all add: pend_def\<close>)
    then show ?thesis by (simp add: effect_def t_case3(1))
  next
    case (t_case4 i c)
    have "prints i s s'" unfolding t_case4(2)
      by (rule prints_local[OF t_case4(3,5,6,4,7)])
         (use t_case4(3,7) len dist in \<open>simp_all add: pend_def popAsync_def split: list.splits\<close>)
    then show ?thesis by (simp add: effect_def t_case4(1))
  next
    case (t_resume_drop i c)
    then show ?thesis by (simp add: effect_def quiet_def unprinted_def printed_def)
  next
    case (t_resume_next i c e r)
    note ok = Inv_src[OF assms(2) t_resume_next(3), unfolded t_resume_next(4,5)]
    have nh: "i \<notin> set (heap s)"
      using src_ok_on_heap[OF ok] by (simp add: on_src_simps)
    have "quiet s (s\<lparr>numLogEntriesBuffered := numLogEntriesBuffered s - 1,
                 contexts := (contexts s)[i := Some (c\<lparr>entry := e, bufferedEntries := r\<rparr>)],
                 heap := heap s @ [i], driver := Running\<rparr>)"
      by (rule quiet_local[OF t_resume_next(3)])
         (use t_resume_next(3,5,6) len nh in \<open>simp_all add: pend_def\<close>)
    then have "quiet s s'" unfolding t_resume_next(2)
      by (rule quiet_bufferLogs) (simp_all add: len t_resume_next(3))
    then show ?thesis by (simp add: effect_def t_resume_next(1))
  next
    case t_abort_done
    then show ?thesis by (simp add: effect_def quiet_def unprinted_def printed_def)
  next
    case (t_abort_call i)
    then show ?thesis by (simp add: effect_def quiet_def unprinted_def printed_def)
  next
    case (t_abort_case1 i c e r)
    have "prints i s s'" unfolding t_abort_case1(2)
      by (rule prints_local[OF t_abort_case1(3,5,6,4,7)])
         (use t_abort_case1(3,7) len dist in \<open>simp_all add: pend_def\<close>)
    then show ?thesis by (simp add: effect_def t_abort_case1(1))
  next
    case (t_abort_resume i c e r)
    then show ?thesis by (simp add: effect_def quiet_def unprinted_def printed_def)
  qed
qed

lemma trans_length:
  assumes "trans mx ev s s'"
  shows "length (logSources s') = length (logSources s)"
  using assms by (cases rule: trans.cases) (simp_all add: settle_def bufferLogs_frame)

lemma src_ok_quiescent:
  assumes "src_ok j src ctx False Running sg"
  shows "pend src ctx False = []"
  using assms unfolding src_ok_def Let_def
  by (cases ctx) (auto simp: on_src_simps pend_def)

lemma earliest_le:
  assumes "earliest s i" "contexts s ! i = Some c" "j \<in> set (heap s)" "contexts s ! j = Some cj"
  shows "date (entry c) \<le> date (entry cj)"
  using assms by (auto simp: earliest_def list_all_iff)

lemma head_le_unprinted:
  assumes "Inv s" "driver s = Running" "earliest s i" "contexts s ! i = Some c"
    "j < length (logSources s)" "sorted (map date (unprinted s j))" "u \<in> set (unprinted s j)"
  shows "date (entry c) \<le> date u"
proof (cases "j \<in> set (heap s)")
  case False
  from Inv_src[OF assms(1,5)] False assms(2)
  have "pend (logSources s ! j) (contexts s ! j) False = []"
    by (intro src_ok_quiescent) simp
  with False assms(7) show ?thesis by (simp add: unprinted_def)
next
  case True
  have "contexts s ! j \<noteq> None"
  proof
    assume "contexts s ! j = None"
    with Inv_src[OF assms(1,5)] have "src_ok j (logSources s ! j) None (j \<in> set (heap s)) (driver s)
        ((j, Fulfilled None) \<in> set (settled s))" by simp
    from src_ok_None_heap[OF this] True show False by simp
  qed
  then obtain cj where cj: "contexts s ! j = Some cj" by blast
  have hd: "date (entry c) \<le> date (entry cj)"
    by (rule earliest_le[OF assms(3,4) True cj])
  from True cj obtain rest where u: "unprinted s j = entry cj # rest"
    by (simp add: unprinted_def pend_def)
  from assms(6,7) u have "date (entry cj) \<le> date u" by auto
  with hd show ?thesis by simp
qed

lemma ordered_effect:
  assumes "effect ev s s'" "Inv s" "ordered s" "length (logSources s') = length (logSources s)"
  shows "ordered s'"
proof -
  consider (q) "quiet s s'" | (p) i where "prints i s s'" | (l) i where "loses i s s'"
    using assms(1) unfolding effect_def by (auto split: event.splits option.splits)
  then show ?thesis
  proof cases
    case q
    then show ?thesis using assms(3,4) by (simp add: quiet_def ordered_def)
  next
    case (l i)
    then obtain A v B where
      pr: "printed s' = printed s" and i: "i < length (logSources s)"
      and u: "unprinted s i = A @ v @ B" "unprinted s' i = A @ B"
      and o: "\<forall>j < length (logSources s). j \<noteq> i \<longrightarrow> unprinted s' j = unprinted s j"
      unfolding loses_def by blast
    have "sorted (map date (printed s' @ unprinted s' j))" if j: "j < length (logSources s)" for j
    proof (cases "j = i")
      case False
      then show ?thesis using o j pr assms(3) by (simp add: ordered_def)
    next
      case True
      from assms(3) i have "sorted (map date (printed s @ A @ v @ B))"
        using u(1) by (auto simp: ordered_def)
      then have "sorted (map date (printed s @ A @ B))"
        by (auto simp: sorted_append)
      then show ?thesis using True pr u(2) by simp
    qed
    then show ?thesis using assms(3,4) pr by (simp add: ordered_def)
  next
    case (p i)
    then obtain c where
      i: "i < length (logSources s)" and e: "earliest s i" and d: "driver s = Running"
      and c: "contexts s ! i = Some c"
      and pr: "printed s' = printed s @ [entry c]"
      and u: "unprinted s i = entry c # unprinted s' i"
      and o: "\<forall>j < length (logSources s). j \<noteq> i \<longrightarrow> unprinted s' j = unprinted s j"
      unfolding prints_def by blast
    from assms(3) i u have si: "sorted (map date (printed s @ entry c # unprinted s' i))"
      by (auto simp: ordered_def)
    then have sp: "sorted (map date (printed s @ [entry c]))"
      by (auto simp: sorted_append)
    have "sorted (map date (printed s' @ unprinted s' j))" if j: "j < length (logSources s)" for j
    proof (cases "j = i")
      case True
      then show ?thesis using si pr by simp
    next
      case False
      from assms(3) j have sj: "sorted (map date (printed s @ unprinted s j))"
        by (simp add: ordered_def)
      then have su: "sorted (map date (unprinted s j))" by (simp add: sorted_append)
      have "\<forall>u \<in> set (unprinted s j). date (entry c) \<le> date u"
        using head_le_unprinted[OF assms(2) d e c j su] by blast
      with sj sp have "sorted (map date ((printed s @ [entry c]) @ unprinted s j))"
        by (auto simp: sorted_append)
      then show ?thesis using False o j pr by simp
    qed
    then show ?thesis using assms(4) pr sp by (simp add: ordered_def)
  qed
qed

lemma unprinted_init: "j < length srcs \<Longrightarrow> unprinted (init srcs) j = srcs ! j"
  by (simp add: unprinted_def init_def) (simp add: pend_def)

lemma exec_ordered:
  assumes "exec lim mx evs (init srcs) = Some s" "\<forall>src \<in> set srcs. sorted (map date src)"
  shows "ordered s"
proof -
  have "Inv s \<and> ordered s"
  proof (rule exec_invariant[OF assms(1) Inv_init])
    have "printed (init srcs) = []" by (simp add: init_def printed_def)
    moreover have "length (logSources (init srcs)) = length srcs" by (simp add: init_def)
    moreover have "sorted (map date (unprinted (init srcs) j))" if "j < length srcs" for j
      using assms(2) that by (simp add: unprinted_init)
    ultimately show "ordered (init srcs)" by (simp add: ordered_def)
  next
    fix ev s s' assume "Inv s" "ordered s" "trans mx ev s s'"
    then show "ordered s'"
      using ordered_effect trans_effect trans_length by blast
  qed simp
  then show ?thesis ..
qed

text \<open>
  C1: when every source hands out its entries in ascending order of \<open>date\<close>, the entries
  passed to \<open>printer.print\<close> are in ascending (non-decreasing) order of \<open>date\<close> at every
  point of a run, whatever the order in which the fetches settle and whichever of several
  earliest contexts the heap returns.
\<close>

theorem printed_in_order:
  assumes "exec lim mx evs (init srcs) = Some s" "list_all (\<lambda>src. sorted (map date src)) srcs"
  shows "sorted (map date (printed s))"
  using exec_ordered[OF assms(1)] assms(2) by (simp add: ordered_def list_all_iff)

theorem printed_in_order_witness:
  "exec stackFrames 1 scheduleD (init scenarioD) \<noteq> None
   \<and> list_all (\<lambda>src. sorted (map date src)) scenarioD
   \<and> sorted (map date (printed (the (exec stackFrames 1 scheduleD (init scenarioD)))))"
proof -
  have ne: "exec stackFrames 1 scheduleD (init scenarioD) \<noteq> None" by code_simp
  then obtain s where s: "exec stackFrames 1 scheduleD (init scenarioD) = Some s" by blast
  have a: "list_all (\<lambda>src. sorted (map date src)) scenarioD" by code_simp
  from printed_in_order[OF s a] ne s a show ?thesis by simp
qed

section \<open>Completeness\<close>

lemma holds_rejected_update:
  assumes "i < length (contexts s)" "contexts s' = (contexts s)[i := Some c']"
    and "nextEntryPromise c' = Some Rejected \<longleftrightarrow>
         (\<exists>c. contexts s ! i = Some c \<and> nextEntryPromise c = Some Rejected)"
  shows "holds_rejected s' = holds_rejected s"
proof -
  let ?R = "\<lambda>ctx. case ctx of None \<Rightarrow> False | Some c \<Rightarrow> nextEntryPromise c = Some Rejected"
  have a: "?R (Some c') = ?R (contexts s ! i)"
    using assms(3) by (cases "contexts s ! i") auto
  have "(\<exists>j < length (contexts s). ?R ((contexts s)[i := Some c'] ! j))
        = (\<exists>j < length (contexts s). ?R (contexts s ! j))"
  proof (intro iffI; elim exE conjE)
    fix j assume "j < length (contexts s)" "?R ((contexts s)[i := Some c'] ! j)"
    then show "\<exists>j < length (contexts s). ?R (contexts s ! j)"
      using a assms(1) by (cases "j = i") auto
  next
    fix j assume "j < length (contexts s)" "?R (contexts s ! j)"
    then show "\<exists>j < length (contexts s). ?R ((contexts s)[i := Some c'] ! j)"
      using a assms(1) by (cases "j = i") auto
  qed
  then show ?thesis
    unfolding holds_rejected_def list_ex_length assms(2) by simp
qed

lemma holds_rejected_same: "contexts s' = contexts s \<Longrightarrow> holds_rejected s' = holds_rejected s"
  by (simp add: holds_rejected_def)

lemma holds_rejected_bufferLogs:
  assumes "i < length (contexts s)"
  shows "holds_rejected (bufferLogs mx i s) = holds_rejected s"
proof (cases mx i s rule: bufferLogs_cases)
  case same
  then show ?thesis by simp
next
  case (issue c)
  show ?thesis
    by (rule holds_rejected_update[OF assms, of _ "c\<lparr>nextEntryPromise := Some Pending\<rparr>"])
       (use issue in simp_all)
qed

lemma holds_rejectedI:
  "i < length (contexts s) \<Longrightarrow> contexts s ! i = Some c \<Longrightarrow> nextEntryPromise c = Some Rejected
   \<Longrightarrow> holds_rejected s"
  unfolding holds_rejected_def list_ex_length by force

lemma PG_stack [simp]:
  "rejection_seen (s\<lparr>stack := n\<rparr>) = rejection_seen s"
  "holds_rejected (s\<lparr>stack := n\<rparr>) = holds_rejected s"
  "doomed (s\<lparr>stack := n\<rparr>) = doomed s"
  "total (s\<lparr>stack := n\<rparr>) = total s"
  "sink_shape (s\<lparr>stack := n\<rparr>) = sink_shape s"
  by (simp_all add: rejection_seen_def holds_rejected_def doomed_def total_def sink_shape_def)

lemma seen_trans:
  assumes "trans mx ev s s'"
  shows "rejection_seen s' = (rejection_seen s \<or> is_reject ev)"
  using assms
  by (cases rule: trans.cases) (simp_all add: rejection_seen_def settle_def bufferLogs_frame)

lemma doomed_trans:
  assumes "trans mx ev s s'" "Inv s"
  shows "doomed s \<or> is_reject ev \<longrightarrow> doomed s'"
proof -
  have len: "length (contexts s) = length (logSources s)"
    using Inv_wf[OF assms(2)] by (simp add: wf_def)
  from assms(1) show ?thesis
  proof (cases rule: trans.cases)
    case (t_init_none i)
    then show ?thesis by (simp add: doomed_def settle_def holds_rejected_def)
  next
    case (t_init_some i e)
    let ?sa = "(settle i [] (Fulfilled (Some e)) s)
                 \<lparr>contexts := (contexts s)[i := Some (freshContext e)], heap := heap s @ [i]\<rparr>"
    have "holds_rejected ?sa = holds_rejected s"
      by (rule holds_rejected_update[where i = i and c' = "freshContext e"])
         (use t_init_some(3,4) len in \<open>simp_all add: settle_def freshContext_def\<close>)
    moreover have "holds_rejected s' = holds_rejected ?sa" unfolding t_init_some(2)
      by (rule holds_rejected_bufferLogs) (simp add: settle_def len t_init_some(3))
    ultimately show ?thesis
      by (simp add: doomed_def t_init_some(1,2) bufferLogs_frame settle_def)
  next
    case (t_prefetch i c v c')
    note p = src_ok_prefetch_pending[OF Inv_src[OF assms(2) t_prefetch(3), unfolded t_prefetch(4)] t_prefetch(5)]
    let ?sa = "(settle i [] (Fulfilled v) s)
                 \<lparr>contexts := (contexts s)[i := Some (c'\<lparr>nextEntryPromise := None\<rparr>)],
                  driver := (if driver s = AwaitPrefetch i then Resumable i else driver s)\<rparr>"
    have "holds_rejected ?sa = holds_rejected s"
      by (rule holds_rejected_update[where i = i and c' = "c'\<lparr>nextEntryPromise := None\<rparr>"])
         (use t_prefetch(3,4) p len in \<open>simp_all add: settle_def\<close>)
    moreover have "holds_rejected s' = holds_rejected ?sa" unfolding t_prefetch(2)
      by (rule holds_rejected_bufferLogs) (simp add: settle_def len t_prefetch(3))
    ultimately show ?thesis
      by (simp add: doomed_def t_prefetch(1,2) bufferLogs_frame settle_def)
  next
    case (t_direct_none i c)
    then show ?thesis by (simp add: doomed_def settle_def holds_rejected_def)
  next
    case (t_direct_some i c e)
    let ?sa = "(settle i [] (Fulfilled (Some e)) s)
                 \<lparr>contexts := (contexts s)[i := Some (c\<lparr>entry := e\<rparr>)],
                  heap := heap s @ [i], driver := Running\<rparr>"
    have "holds_rejected ?sa = holds_rejected s"
      by (rule holds_rejected_update[where i = i and c' = "c\<lparr>entry := e\<rparr>"])
         (use t_direct_some(3,4) len in \<open>simp_all add: settle_def\<close>)
    moreover have "holds_rejected s' = holds_rejected ?sa" unfolding t_direct_some(2)
      by (rule holds_rejected_bufferLogs) (simp add: settle_def len t_direct_some(3))
    ultimately show ?thesis
      by (simp add: doomed_def t_direct_some(1,2,5) bufferLogs_frame settle_def)
  next
    case (t_reject_initial i v)
    from src_ok_initial_driver[OF Inv_src[OF assms(2) t_reject_initial(3)] t_reject_initial(5)]
    show ?thesis by (auto simp: doomed_def t_reject_initial(1,2) settle_def)
  next
    case (t_reject_prefetch i c v)
    have "holds_rejected s'"
      by (rule holds_rejectedI[of i _ "c\<lparr>nextEntryPromise := Some Rejected\<rparr>"])
         (use t_reject_prefetch(2,3) len in \<open>simp_all add: settle_def\<close>)
    then show ?thesis by (simp add: doomed_def t_reject_prefetch(1))
  next
    case (t_reject_direct i c v)
    then show ?thesis by (simp add: doomed_def settle_def)
  next
    case t_start
    then show ?thesis by (simp add: doomed_def holds_rejected_def)
  next
    case t_done
    then show ?thesis by (simp add: doomed_def holds_rejected_def)
  next
    case (t_case1 i c e r)
    let ?sa = "s\<lparr>printer := printer s @ [Print (entry c)],
                 numLogEntriesBuffered := numLogEntriesBuffered s - 1,
                 contexts := (contexts s)[i := Some (c\<lparr>entry := e, bufferedEntries := r\<rparr>)],
                 heap := remove1 i (heap s) @ [i], driver := Running\<rparr>"
    have "holds_rejected ?sa = holds_rejected s"
      by (rule holds_rejected_update[where i = i and c' = "c\<lparr>entry := e, bufferedEntries := r\<rparr>"])
         (use t_case1(3,7) len in simp_all)
    moreover have "holds_rejected s' = holds_rejected ?sa" unfolding t_case1(2)
      by (rule holds_rejected_bufferLogs) (simp add: len t_case1(3))
    ultimately show ?thesis
      by (simp add: doomed_def t_case1(1,2,4) bufferLogs_frame)
  next
    case (t_case2 i c)
    then show ?thesis by (simp add: doomed_def holds_rejected_def)
  next
    case (t_case2_rejected i c)
    have "holds_rejected s"
      by (rule holds_rejectedI[of i _ c]) (use t_case2_rejected(3,7,9) len in simp_all)
    then show ?thesis by (simp add: doomed_def t_case2_rejected(1,2))
  next
    case (t_case3 i c)
    then show ?thesis by (simp add: doomed_def holds_rejected_def)
  next
    case (t_case4 i c)
    then show ?thesis by (simp add: doomed_def holds_rejected_def)
  next
    case (t_resume_drop i c)
    then show ?thesis by (simp add: doomed_def holds_rejected_def)
  next
    case (t_resume_next i c e r)
    let ?sa = "s\<lparr>numLogEntriesBuffered := numLogEntriesBuffered s - 1,
                 contexts := (contexts s)[i := Some (c\<lparr>entry := e, bufferedEntries := r\<rparr>)],
                 heap := heap s @ [i], driver := Running\<rparr>"
    have "holds_rejected ?sa = holds_rejected s"
      by (rule holds_rejected_update[where i = i and c' = "c\<lparr>entry := e, bufferedEntries := r\<rparr>"])
         (use t_resume_next(3,5) len in simp_all)
    moreover have "holds_rejected s' = holds_rejected ?sa" unfolding t_resume_next(2)
      by (rule holds_rejected_bufferLogs) (simp add: len t_resume_next(3))
    ultimately show ?thesis
      by (simp add: doomed_def t_resume_next(1,2,4) bufferLogs_frame)
  next
    case t_abort_done
    then show ?thesis by (simp add: doomed_def)
  next
    case (t_abort_call i)
    then show ?thesis by (simp add: doomed_def)
  next
    case (t_abort_case1 i c e r)
    then show ?thesis by (simp add: doomed_def)
  next
    case (t_abort_resume i c e r)
    then show ?thesis by (simp add: doomed_def)
  qed
qed

lemma sink_shape_trans:
  assumes "trans mx ev s s'" "sink_shape s"
  shows "sink_shape s'"
  using assms(1)
  by (cases rule: trans.cases)
     (use assms(2) in \<open>auto simp: sink_shape_def settle_def bufferLogs_frame printed_def\<close>)

lemma sum_changes:
  fixes f g :: "nat \<Rightarrow> 'a multiset"
  assumes "i < n" "\<forall>j < n. j \<noteq> i \<longrightarrow> f j = g j"
  shows "(\<Sum>j < n. f j) + g i = (\<Sum>j < n. g j) + f i"
proof -
  have fi: "(\<Sum>j < n. f j) = f i + (\<Sum>j \<in> {..<n} - {i}. f j)"
    using assms(1) by (intro sum.remove) simp_all
  have gi: "(\<Sum>j < n. g j) = g i + (\<Sum>j \<in> {..<n} - {i}. g j)"
    using assms(1) by (intro sum.remove) simp_all
  have "(\<Sum>j \<in> {..<n} - {i}. f j) = (\<Sum>j \<in> {..<n} - {i}. g j)"
    using assms(2) by (intro sum.cong) auto
  with fi gi show ?thesis by (simp add: ac_simps)
qed

lemma total_effect:
  assumes "effect ev s s'" "length (logSources s') = length (logSources s)"
  shows "total s' \<subseteq># total s" "\<not> is_reject ev \<Longrightarrow> total s' = total s"
proof -
  let ?n = "length (logSources s)"
  consider (q) "quiet s s'" "\<not> is_reject ev" | (p) i where "prints i s s'" "\<not> is_reject ev"
    | (l) i where "loses i s s'" "is_reject ev"
    using assms(1) unfolding effect_def by (auto split: event.splits option.splits)
  then have "total s' \<subseteq># total s \<and> (\<not> is_reject ev \<longrightarrow> total s' = total s)"
  proof cases
    case q
    then show ?thesis using assms(2) by (simp add: quiet_def total_def)
  next
    case (p i)
    then obtain c :: sourceContext where
      i: "i < ?n" and pr: "printed s' = printed s @ [entry c]"
      and u: "unprinted s i = entry c # unprinted s' i"
      and o: "\<forall>j < ?n. j \<noteq> i \<longrightarrow> unprinted s' j = unprinted s j"
      unfolding prints_def by blast
    from sum_changes[OF i, of "\<lambda>j. mset (unprinted s' j)" "\<lambda>j. mset (unprinted s j)"] o
    have "(\<Sum>j < ?n. mset (unprinted s' j)) + mset (unprinted s i)
          = (\<Sum>j < ?n. mset (unprinted s j)) + mset (unprinted s' i)" by simp
    then have "(\<Sum>j < ?n. mset (unprinted s' j)) + {#entry c#} = (\<Sum>j < ?n. mset (unprinted s j))"
      using u by simp
    then show ?thesis using pr assms(2) by (simp add: total_def ac_simps)
  next
    case (l i)
    then obtain A v B where
      i: "i < ?n" and pr: "printed s' = printed s"
      and u: "unprinted s i = A @ v @ B" "unprinted s' i = A @ B"
      and o: "\<forall>j < ?n. j \<noteq> i \<longrightarrow> unprinted s' j = unprinted s j"
      unfolding loses_def by blast
    from sum_changes[OF i, of "\<lambda>j. mset (unprinted s' j)" "\<lambda>j. mset (unprinted s j)"] o
    have "(\<Sum>j < ?n. mset (unprinted s' j)) + mset (unprinted s i)
          = (\<Sum>j < ?n. mset (unprinted s j)) + mset (unprinted s' i)" by simp
    then have "(\<Sum>j < ?n. mset (unprinted s' j)) + mset v = (\<Sum>j < ?n. mset (unprinted s j))"
      using u by simp
    then have "(\<Sum>j < ?n. mset (unprinted s' j)) \<subseteq># (\<Sum>j < ?n. mset (unprinted s j))"
      by (metis mset_subset_eq_add_left)
    then show ?thesis using pr assms(2) l(2) by (simp add: total_def)
  qed
  then show "total s' \<subseteq># total s" "\<not> is_reject ev \<Longrightarrow> total s' = total s" by simp_all
qed

lemma total_init: "total (init srcs) = mset (concat srcs)"
proof -
  have "(\<Sum>j < length srcs. mset (unprinted (init srcs) j)) = (\<Sum>j < length srcs. mset (srcs ! j))"
    by (intro sum.cong) (simp_all add: unprinted_init)
  also have "\<dots> = sum_list (map mset srcs)"
    by (simp add: sum_list_sum_nth atLeast0LessThan)
  also have "\<dots> = mset (concat srcs)" by (simp add: mset_concat)
  finally show ?thesis by (simp add: total_def init_def printed_def)
qed

lemma exec_total:
  assumes "exec lim mx evs (init srcs) = Some s"
  shows "total s \<subseteq># mset (concat srcs)" "rejection_seen s \<or> total s = mset (concat srcs)"
proof -
  let ?P = "\<lambda>s. total s \<subseteq># mset (concat srcs) \<and> (rejection_seen s \<or> total s = mset (concat srcs))"
  have "Inv s \<and> ?P s"
  proof (rule exec_invariant[OF assms Inv_init])
    show "?P (init srcs)" by (simp add: total_init)
  next
    fix ev s s' assume inv: "Inv s" and p: "?P s" and t: "trans mx ev s s'"
    note e = total_effect[OF trans_effect[OF t inv] trans_length[OF t]]
    from e(1) p have "total s' \<subseteq># mset (concat srcs)" by (meson subset_mset.order_trans)
    moreover have "rejection_seen s' \<or> total s' = mset (concat srcs)"
      using p e(2) seen_trans[OF t] by auto
    ultimately show "?P s'" by simp
  qed simp
  then show "total s \<subseteq># mset (concat srcs)" "rejection_seen s \<or> total s = mset (concat srcs)"
    by simp_all
qed

lemma exec_doomed:
  assumes "exec lim mx evs (init srcs) = Some s"
  shows "rejection_seen s \<longrightarrow> doomed s"
proof -
  have "Inv s \<and> (rejection_seen s \<longrightarrow> doomed s)"
  proof (rule exec_invariant[OF assms Inv_init])
    show "rejection_seen (init srcs) \<longrightarrow> doomed (init srcs)"
      by (simp add: rejection_seen_def init_def)
  next
    fix ev s s' assume "Inv s" "rejection_seen s \<longrightarrow> doomed s" "trans mx ev s s'"
    then show "rejection_seen s' \<longrightarrow> doomed s'"
      using doomed_trans[of mx ev s s'] seen_trans[of mx ev s s'] by blast
  qed simp
  then show ?thesis ..
qed

lemma exec_sink_shape:
  assumes "exec lim mx evs (init srcs) = Some s"
  shows "sink_shape s"
proof -
  have "Inv s \<and> sink_shape s"
  proof (rule exec_invariant[OF assms Inv_init])
    show "sink_shape (init srcs)" by (simp add: sink_shape_def init_def printed_def)
  next
    fix ev s s' assume "Inv s" "sink_shape s" "trans mx ev s s'"
    then show "sink_shape s'" using sink_shape_trans by blast
  qed simp
  then show ?thesis ..
qed

lemma src_ok_finished:
  assumes "src_ok j src ctx False Finished sg"
  shows "pend src ctx False = []" "outstanding src = []" "remaining src = []" "sg"
    "case ctx of None \<Rightarrow> True | Some c \<Rightarrow> nextEntryPromise c = None"
  using assms unfolding src_ok_def Let_def
  by (cases ctx; auto simp: on_src_simps pend_def)+

lemma finished_quiescent:
  assumes "Inv s" "driver s = Finished" "j < length (logSources s)"
  shows "unprinted s j = []" "outstanding (logSources s ! j) = []" "remaining (logSources s ! j) = []"
    "(j, Fulfilled None) \<in> set (settled s)"
    "case contexts s ! j of None \<Rightarrow> True | Some c \<Rightarrow> nextEntryPromise c = None"
proof -
  have h: "j \<notin> set (heap s)" using Inv_wf[OF assms(1)] assms(2) by (simp add: wf_def)
  from Inv_src[OF assms(1,3)] h assms(2)
  have ok: "src_ok j (logSources s ! j) (contexts s ! j) False Finished ((j, Fulfilled None) \<in> set (settled s))"
    by simp
  from src_ok_finished[OF ok] h
  show "unprinted s j = []" "outstanding (logSources s ! j) = []" "remaining (logSources s ! j) = []"
    "(j, Fulfilled None) \<in> set (settled s)"
    "case contexts s ! j of None \<Rightarrow> True | Some c \<Rightarrow> nextEntryPromise c = None"
    by (simp_all add: unprinted_def)
qed

lemma finished_not_doomed:
  assumes "Inv s" "driver s = Finished"
  shows "\<not> doomed s"
proof -
  have len: "length (contexts s) = length (logSources s)"
    using Inv_wf[OF assms(1)] by (simp add: wf_def)
  have "\<not> (case contexts s ! j of None \<Rightarrow> False | Some c \<Rightarrow> nextEntryPromise c = Some Rejected)"
    if "j < length (contexts s)" for j
    using finished_quiescent(5)[OF assms, of j] that len
    by (cases "contexts s ! j") simp_all
  then have "\<not> holds_rejected s" unfolding holds_rejected_def list_ex_length by blast
  then show ?thesis using assms(2) by (simp add: doomed_def)
qed

lemma finished_total:
  assumes "exec lim mx evs (init srcs) = Some s" "driver s = Finished"
  shows "mset (printed s) = mset (concat srcs)"
proof -
  note inv = exec_Inv[OF assms(1)]
  have "\<not> rejection_seen s"
    using finished_not_doomed[OF inv assms(2)] exec_doomed[OF assms(1)] by simp
  with exec_total(2)[OF assms(1)] have "total s = mset (concat srcs)" by simp
  moreover have "(\<Sum>j < length (logSources s). mset (unprinted s j)) = {#}"
    using finished_quiescent(1)[OF inv assms(2)] by simp
  ultimately show ?thesis by (simp add: total_def)
qed

lemma printed_subset:
  assumes "exec lim mx evs (init srcs) = Some s"
  shows "mset (printed s) \<subseteq># mset (concat srcs)"
proof -
  have "mset (printed s) \<subseteq># total s" by (simp add: total_def)
  with exec_total(1)[OF assms] show ?thesis by (meson subset_mset.order_trans)
qed

section \<open>Termination and rejected fetches\<close>

lemma PH_stack [simp]:
  "progress (s\<lparr>stack := n\<rparr>) = progress s"
  "fetchesOutstanding (s\<lparr>stack := n\<rparr>) = fetchesOutstanding s"
  "budget (s\<lparr>stack := n\<rparr>) = budget s"
  by (simp_all add: progress_def fetchesOutstanding_def budget_def)

lemma progress_trans:
  assumes "trans mx ev s s'"
  shows "progress s < progress s'"
  using assms
  by (cases rule: trans.cases)
     (auto simp: progress_def settle_def bufferLogs_frame printed_def)

lemma length_outstanding_popAsync [simp]:
  "length (outstanding (popAsync k src)) = Suc (length (outstanding src))"
  by (cases "remaining src") (simp_all add: popAsync_def)

lemma fetchesOutstanding_update:
  assumes "i < length (logSources s)" "logSources s' = (logSources s)[i := src]"
  shows "fetchesOutstanding s' = fetchesOutstanding s
           - int (length (outstanding (logSources s ! i))) + int (length (outstanding src))"
  using assms by (simp add: fetchesOutstanding_def sum_list_map_update)

lemma fetchesOutstanding_same:
  "logSources s' = logSources s \<Longrightarrow> fetchesOutstanding s' = fetchesOutstanding s"
  by (simp add: fetchesOutstanding_def)

lemma budget_bufferLogs:
  assumes "budget s" "i < length (logSources s)"
  shows "budget (bufferLogs mx i s)"
proof (cases mx i s rule: bufferLogs_cases)
  case same
  then show ?thesis using assms by simp
next
  case (issue c)
  have "fetchesOutstanding (bufferLogs mx i s) = fetchesOutstanding s + 1"
    using fetchesOutstanding_update[OF assms(2), of "bufferLogs mx i s" "popAsync Prefetch (logSources s ! i)"]
    by (simp add: issue(5))
  then show ?thesis using assms(1) by (simp add: budget_def bufferLogs_frame) (simp add: issue(5))
qed

lemma budget_trans:
  assumes "trans mx ev s s'" "budget s"
  shows "budget s'"
  using assms(1)
proof (cases rule: trans.cases)
  case (t_init_none i)
  then show ?thesis using assms(2)
    by (simp add: budget_def fetchesOutstanding_def settle_def sum_list_map_update printed_def)
next
  case (t_init_some i e)
  have "budget ((settle i [] (Fulfilled (Some e)) s)
                 \<lparr>contexts := (contexts s)[i := Some (freshContext e)], heap := heap s @ [i]\<rparr>)"
    using assms(2) t_init_some(3,5)
    by (simp add: budget_def fetchesOutstanding_def settle_def sum_list_map_update printed_def)
  then show ?thesis unfolding t_init_some(2)
    by (rule budget_bufferLogs) (simp add: settle_def t_init_some(3))
next
  case (t_prefetch i c v c')
  have "budget ((settle i [] (Fulfilled v) s)
                 \<lparr>contexts := (contexts s)[i := Some (c'\<lparr>nextEntryPromise := None\<rparr>)],
                  driver := (if driver s = AwaitPrefetch i then Resumable i else driver s)\<rparr>)"
    using assms(2) t_prefetch(3,5)
    by (auto simp: budget_def fetchesOutstanding_def settle_def sum_list_map_update printed_def)
  then show ?thesis unfolding t_prefetch(2)
    by (rule budget_bufferLogs) (simp add: settle_def t_prefetch(3))
next
  case (t_direct_none i c)
  then show ?thesis using assms(2)
    by (simp add: budget_def fetchesOutstanding_def settle_def sum_list_map_update printed_def)
next
  case (t_direct_some i c e)
  have "budget ((settle i [] (Fulfilled (Some e)) s)
                 \<lparr>contexts := (contexts s)[i := Some (c\<lparr>entry := e\<rparr>)],
                  heap := heap s @ [i], driver := Running\<rparr>)"
    using assms(2) t_direct_some(3,5,6)
    by (simp add: budget_def fetchesOutstanding_def settle_def sum_list_map_update printed_def)
  then show ?thesis unfolding t_direct_some(2)
    by (rule budget_bufferLogs) (simp add: settle_def t_direct_some(3))
next
  case (t_reject_initial i v)
  have "slack (if driver s = NotStarted then Failed else driver s) \<le> slack (driver s)" by simp
  then show ?thesis using assms(2) t_reject_initial(2,3,5)
    by (simp add: budget_def fetchesOutstanding_def settle_def sum_list_map_update printed_def)
next
  case (t_reject_prefetch i c v)
  have "slack (if driver s = AwaitPrefetch i then Failed else driver s) \<le> slack (driver s)" by simp
  then show ?thesis using assms(2) t_reject_prefetch(2,3,5)
    by (simp add: budget_def fetchesOutstanding_def settle_def sum_list_map_update printed_def)
next
  case (t_reject_direct i c v)
  then show ?thesis using assms(2)
    by (simp add: budget_def fetchesOutstanding_def settle_def sum_list_map_update printed_def)
next
  case t_start
  then show ?thesis using assms(2)
    by (simp add: budget_def fetchesOutstanding_def printed_def)
next
  case t_done
  then show ?thesis using assms(2)
    by (simp add: budget_def fetchesOutstanding_def printed_def)
next
  case (t_case1 i c e r)
  have "budget (s\<lparr>printer := printer s @ [Print (entry c)],
                 numLogEntriesBuffered := numLogEntriesBuffered s - 1,
                 contexts := (contexts s)[i := Some (c\<lparr>entry := e, bufferedEntries := r\<rparr>)],
                 heap := remove1 i (heap s) @ [i], driver := Running\<rparr>)"
    using assms(2) t_case1(4)
    by (simp add: budget_def fetchesOutstanding_def printed_def)
  then show ?thesis unfolding t_case1(2)
    by (rule budget_bufferLogs) (simp add: t_case1(3))
next
  case (t_case2 i c)
  then show ?thesis using assms(2)
    by (simp add: budget_def fetchesOutstanding_def printed_def)
next
  case (t_case2_rejected i c)
  then show ?thesis using assms(2)
    by (simp add: budget_def fetchesOutstanding_def printed_def)
next
  case (t_case3 i c)
  then show ?thesis using assms(2)
    by (simp add: budget_def fetchesOutstanding_def printed_def)
next
  case (t_case4 i c)
  then show ?thesis using assms(2)
    by (simp add: budget_def fetchesOutstanding_def sum_list_map_update printed_def)
next
  case (t_resume_drop i c)
  then show ?thesis using assms(2)
    by (simp add: budget_def fetchesOutstanding_def printed_def)
next
  case (t_resume_next i c e r)
  have "budget (s\<lparr>numLogEntriesBuffered := numLogEntriesBuffered s - 1,
                 contexts := (contexts s)[i := Some (c\<lparr>entry := e, bufferedEntries := r\<rparr>)],
                 heap := heap s @ [i], driver := Running\<rparr>)"
    using assms(2) t_resume_next(4)
    by (simp add: budget_def fetchesOutstanding_def printed_def)
  then show ?thesis unfolding t_resume_next(2)
    by (rule budget_bufferLogs) (simp add: t_resume_next(3))
next
  case t_abort_done
  then show ?thesis using assms(2)
    by (simp add: budget_def fetchesOutstanding_def printed_def)
next
  case (t_abort_call i)
  then show ?thesis using assms(2)
    by (simp add: budget_def fetchesOutstanding_def printed_def)
next
  case (t_abort_case1 i c e r)
  then show ?thesis using assms(2)
    by (simp add: budget_def fetchesOutstanding_def printed_def)
next
  case (t_abort_resume i c e r)
  then show ?thesis using assms(2)
    by (simp add: budget_def fetchesOutstanding_def printed_def)
qed

lemma fetchesOutstanding_init: "fetchesOutstanding (init srcs) = int (length srcs)"
proof -
  have "sum_list (map (\<lambda>es. int (length (outstanding (popAsync Initial \<lparr>remaining = es, outstanding = []\<rparr>)))) xs)
        = int (length xs)" for xs :: "LogEntry list list"
    by (induction xs) simp_all
  then show ?thesis by (simp add: fetchesOutstanding_def init_def o_def)
qed

lemma exec_budget:
  assumes "exec lim mx evs (init srcs) = Some s"
  shows "budget s"
proof -
  have "Inv s \<and> budget s"
  proof (rule exec_invariant[OF assms Inv_init])
    show "budget (init srcs)"
      using fetchesOutstanding_init[of srcs]
      by (simp add: budget_def) (simp add: init_def printed_def)
  next
    fix ev s s' assume "Inv s" "budget s" "trans mx ev s s'"
    then show "budget s'" using budget_trans by blast
  qed simp
  then show ?thesis ..
qed

lemma exec_progress:
  assumes "exec lim mx evs s0 = Some s" "Inv s0"
  shows "progress s0 + length evs \<le> progress s"
  using assms
proof (induction evs arbitrary: s0)
  case Nil
  then show ?case by simp
next
  case (Cons ev evs)
  from Cons.prems(1) obtain s1 where s1: "step lim mx ev s0 = Some s1" "exec lim mx evs s1 = Some s"
    by (auto split: option.splits)
  have t: "trans mx ev s0 (s1\<lparr>stack := stack s0\<rparr>)" by (rule step_trans[OF Cons.prems(2) s1(1)])
  from Cons.IH[OF s1(2) step_Inv[OF Cons.prems(2) s1(1)]] progress_trans[OF t]
  show ?case by simp
qed

lemma fetchesOutstanding_nonneg: "0 \<le> fetchesOutstanding s"
  unfolding fetchesOutstanding_def by (rule sum_list_nonneg) auto

lemma exec_bounded:
  assumes "exec lim mx evs (init srcs) = Some s" "0 \<le> mx"
  shows "length evs \<le> run_bound mx srcs"
proof -
  have p: "length (printed s) \<le> length (concat srcs)"
    using printed_subset[OF assms(1)] size_mset_mono[of "mset (printed s)" "mset (concat srcs)"]
    by simp
  have "0 \<le> slack (driver s)" by (cases "driver s") simp_all
  with exec_budget[OF assms(1)] fetchesOutstanding_nonneg[of s] exec_counted(2)[OF assms]
  have "int (length (settled s)) \<le> int (length (logSources s)) + mx + 2 * int (length (printed s))"
    by (simp add: budget_def)
  then have st: "length (settled s) \<le> length srcs + nat mx + 2 * length (printed s)"
    using exec_length[OF assms(1)] assms(2) by linarith
  have "phase (driver s) \<le> 2" by (cases "driver s") simp_all
  with st p have "progress s \<le> run_bound mx srcs"
    by (simp add: progress_def run_bound_def)
  moreover have "length evs \<le> progress s"
    using exec_progress[OF assms(1) Inv_init] by simp
  ultimately show ?thesis by simp
qed

lemma processContext_Some:
  assumes "contexts s ! i = Some c"
  shows "processContext lim mx i s \<noteq> None"
  using assms
  by (cases "bufferedEntries c") (simp_all add: processContext_def getNextEntry_def Let_def)

lemma resumed_Some:
  assumes "contexts s ! i = Some c"
  shows "resumed lim mx i s \<noteq> None"
  using assms
  by (cases "bufferedEntries c") (simp_all add: resumed_def getNextEntry_def Let_def)

lemma ex_earliest:
  assumes "heap s \<noteq> []" "\<forall>j \<in> set (heap s). contexts s ! j \<noteq> None"
  shows "\<exists>i \<in> set (heap s). earliest s i"
proof -
  let ?key = "\<lambda>j. date (entry (the (contexts s ! j)))"
  let ?i = "arg_min_list ?key (heap s)"
  have i: "?i \<in> set (heap s)" by (rule arg_min_list_in[OF assms(1)])
  have m: "?key ?i \<le> ?key j" if "j \<in> set (heap s)" for j
    using f_arg_min_list_f[OF assms(1), of ?key] that by simp
  from i assms(2) obtain c where c: "contexts s ! ?i = Some c" by auto
  have "date (entry c) \<le> date (entry cj)" if "j \<in> set (heap s)" "contexts s ! j = Some cj" for j cj
    using m[OF that(1)] c that(2) by simp
  then have "earliest s ?i"
    unfolding earliest_def using c by (auto simp: list_all_iff split: option.splits)
  with i show ?thesis by blast
qed

lemma src_ok_on_ctx:
  assumes "src_ok i src ctx h d sg" "on_src d i"
  shows "ctx \<noteq> None"
  using assms unfolding src_ok_def Let_def by (cases ctx) simp_all

lemma src_ok_await_outs:
  assumes "src_ok i src (Some c) h d sg"
  shows "d = AwaitPrefetch i \<Longrightarrow> \<exists>v. outstanding src = [(Prefetch, v)]"
    and "d = AwaitDirect i \<Longrightarrow> \<exists>v. outstanding src = [(Direct, v)]"
proof -
  have one: "\<exists>v. outstanding src = [(k, v)]" if "(k, w) \<in> set (outstanding src)" for k w
  proof (cases "outstanding src")
    case Nil
    with that show ?thesis by simp
  next
    case (Cons f fs)
    with assms have "fs = []" by (simp add: src_ok_def Let_def)
    with Cons that show ?thesis by auto
  qed
  show "d = AwaitPrefetch i \<Longrightarrow> \<exists>v. outstanding src = [(Prefetch, v)]"
    using assms one[of Prefetch] unfolding src_ok_def Let_def by auto
  show "d = AwaitDirect i \<Longrightarrow> \<exists>v. outstanding src = [(Direct, v)]"
    using assms one[of Direct] unfolding src_ok_def Let_def by auto
qed

lemma can_continue:
  assumes "Inv s" "driver s \<noteq> Finished" "driver s \<noteq> Failed"
  shows "\<exists>ev. \<not> is_reject ev \<and> step lim mx ev s \<noteq> None"
proof -
  note wf = Inv_wf[OF assms(1)]
  have len: "length (contexts s) = length (logSources s)" using wf by (simp add: wf_def)
  show ?thesis
  proof (cases "driver s")
    case NotStarted
    show ?thesis
    proof (cases "no_initial_outstanding s")
      case True
      with NotStarted have "step lim mx Start s \<noteq> None" by simp
      then show ?thesis by (intro exI[of _ Start]) simp
    next
      case False
      then obtain src f where "src \<in> set (logSources s)" "f \<in> set (outstanding src)" "fst f = Initial"
        unfolding no_initial_outstanding_def list_all_iff by blast
      then obtain i f where i: "i < length (logSources s)"
        and f: "f \<in> set (outstanding (logSources s ! i))" "fst f = Initial"
        by (metis in_set_conv_nth)
      from Inv_src[OF assms(1) i] have "length (outstanding (logSources s ! i)) \<le> 1"
        by (simp add: src_ok_def Let_def)
      with f obtain v where "outstanding (logSources s ! i) = [(Initial, v)]"
        by (cases "outstanding (logSources s ! i)"; cases f) auto
      then have "step lim mx (Fulfil i Initial) s \<noteq> None" using i len by simp
      then show ?thesis by (intro exI[of _ "Fulfil i Initial"]) simp
    qed
  next
    case Running
    show ?thesis
    proof (cases "heap s = []")
      case True
      with Running have "step lim mx (ProcessNext None) s \<noteq> None" by simp
      then show ?thesis by (intro exI[of _ "ProcessNext None"]) simp
    next
      case False
      have ctx: "contexts s ! j \<noteq> None" if "j \<in> set (heap s)" for j
      proof
        assume n: "contexts s ! j = None"
        from that wf have j: "j < length (logSources s)" by (simp add: wf_def)
        from Inv_src[OF assms(1) j] n src_ok_None_heap[of j "logSources s ! j"] that
        show False by auto
      qed
      with ex_earliest[OF False] obtain i where i: "i \<in> set (heap s)" "earliest s i" by blast
      from i(1) wf have il: "i < length (logSources s)" by (simp add: wf_def)
      from ctx[OF i(1)] obtain c where "contexts s ! i = Some c" by blast
      from processContext_Some[OF this, of lim mx] Running i il len
      have "step lim mx (ProcessNext (Some i)) s \<noteq> None" by simp
      then show ?thesis by (intro exI[of _ "ProcessNext (Some i)"]) simp
    qed
  next
    case (AwaitPrefetch i)
    then have i: "i < length (logSources s)" using wf by (simp add: wf_def on_src_simps)
    note ok = Inv_src[OF assms(1) i]
    from src_ok_on_ctx[OF ok] AwaitPrefetch obtain c where c: "contexts s ! i = Some c"
      by (auto simp: on_src_simps)
    from src_ok_await_outs(1)[OF ok[unfolded c]] AwaitPrefetch
    obtain v where "outstanding (logSources s ! i) = [(Prefetch, v)]" by blast
    then have "step lim mx (Fulfil i Prefetch) s \<noteq> None"
      using i len c by (simp add: prefetched_def settle_def Let_def)
    then show ?thesis by (intro exI[of _ "Fulfil i Prefetch"]) simp
  next
    case (Resumable i)
    then have i: "i < length (logSources s)" using wf by (simp add: wf_def on_src_simps)
    from src_ok_on_ctx[OF Inv_src[OF assms(1) i]] Resumable obtain c where c: "contexts s ! i = Some c"
      by (auto simp: on_src_simps)
    from resumed_Some[OF c, of lim mx] Resumable i len have "step lim mx Resume s \<noteq> None" by simp
    then show ?thesis by (intro exI[of _ Resume]) simp
  next
    case (AwaitDirect i)
    then have i: "i < length (logSources s)" using wf by (simp add: wf_def on_src_simps)
    note ok = Inv_src[OF assms(1) i]
    from src_ok_on_ctx[OF ok] AwaitDirect obtain c where c: "contexts s ! i = Some c"
      by (auto simp: on_src_simps)
    from src_ok_await_outs(2)[OF ok[unfolded c]] AwaitDirect
    obtain v where "outstanding (logSources s ! i) = [(Direct, v)]" by blast
    then have "step lim mx (Fulfil i Direct) s \<noteq> None"
      using i len c AwaitDirect by (cases v) (simp_all add: directFetched_def settle_def)
    then show ?thesis by (intro exI[of _ "Fulfil i Direct"]) simp
  next
    case Finished
    with assms(2) show ?thesis by simp
  next
    case Failed
    with assms(3) show ?thesis by simp
  next
    case UndefinedHead
    with wf show ?thesis by (simp add: wf_def)
  qed
qed

lemma exec_append:
  "exec lim mx (xs @ ys) s = (case exec lim mx xs s of None \<Rightarrow> None | Some s' \<Rightarrow> exec lim mx ys s')"
  by (induction xs arbitrary: s) (simp_all split: option.splits)

lemma exec_seen_gen:
  assumes "exec lim mx evs s0 = Some s" "Inv s0"
  shows "rejection_seen s = (rejection_seen s0 \<or> list_ex is_reject evs)"
  using assms
proof (induction evs arbitrary: s0)
  case Nil
  then show ?case by simp
next
  case (Cons ev evs)
  from Cons.prems(1) obtain s1 where s1: "step lim mx ev s0 = Some s1" "exec lim mx evs s1 = Some s"
    by (auto split: option.splits)
  have t: "trans mx ev s0 (s1\<lparr>stack := stack s0\<rparr>)" by (rule step_trans[OF Cons.prems(2) s1(1)])
  from Cons.IH[OF s1(2) step_Inv[OF Cons.prems(2) s1(1)]] seen_trans[OF t]
  show ?case by auto
qed

lemma exec_seen:
  assumes "exec lim mx evs (init srcs) = Some s"
  shows "rejection_seen s = list_ex is_reject evs"
  using exec_seen_gen[OF assms Inv_init] by (simp add: rejection_seen_def init_def)

lemma seen_not_finished:
  assumes "exec lim mx evs (init srcs) = Some s" "list_ex is_reject evs"
  shows "driver s \<noteq> Finished"
  using exec_doomed[OF assms(1)] exec_seen[OF assms(1)] assms(2)
    finished_not_doomed[OF exec_Inv[OF assms(1)]] by auto

lemma terminal_trans:
  assumes "trans mx ev s s'" "driver s = Finished \<or> driver s = Failed"
  shows "driver s' = driver s \<and> printer s' = printer s"
  using assms(1)
  by (cases rule: trans.cases) (use assms(2) in \<open>auto simp: settle_def bufferLogs_frame\<close>)

lemma exec_terminal:
  assumes "exec lim mx evs s0 = Some s" "Inv s0" "driver s0 = Finished \<or> driver s0 = Failed"
  shows "driver s = driver s0 \<and> printer s = printer s0"
proof -
  have "Inv s \<and> (driver s = driver s0 \<and> printer s = printer s0)"
  proof (rule exec_invariant[OF assms(1,2)])
    show "driver s0 = driver s0 \<and> printer s0 = printer s0" by simp
  next
    fix ev s s' assume "Inv s" "driver s = driver s0 \<and> printer s = printer s0" "trans mx ev s s'"
    then show "driver s' = driver s0 \<and> printer s' = printer s0"
      using terminal_trans[of mx ev s s'] assms(3) by auto
  qed simp
  then show ?thesis ..
qed

lemma reaches_end:
  assumes "exec lim mx evs (init srcs) = Some s" "0 \<le> mx"
  shows "\<exists>evs' s'. list_all (\<lambda>ev. \<not> is_reject ev) evs'
           \<and> exec lim mx (evs @ evs') (init srcs) = Some s'
           \<and> (driver s' = Finished \<or> driver s' = Failed)"
  using assms(1)
proof (induction "run_bound mx srcs - length evs" arbitrary: evs s rule: less_induct)
  case less
  show ?case
  proof (cases "driver s = Finished \<or> driver s = Failed")
    case True
    with less.prems show ?thesis by (intro exI[of _ "[]"] exI[of _ s]) simp
  next
    case False
    from can_continue[OF exec_Inv[OF less.prems], of lim mx] False
    obtain ev s1 where ev: "\<not> is_reject ev" "step lim mx ev s = Some s1" by auto
    have e1: "exec lim mx (evs @ [ev]) (init srcs) = Some s1"
      using less.prems ev(2) by (simp add: exec_append)
    from exec_bounded[OF e1 assms(2)] have "run_bound mx srcs - length (evs @ [ev]) < run_bound mx srcs - length evs"
      by simp
    from less.hyps[OF this e1] obtain evs' s' where
      "list_all (\<lambda>ev. \<not> is_reject ev) evs'" "exec lim mx ((evs @ [ev]) @ evs') (init srcs) = Some s'"
      "driver s' = Finished \<or> driver s' = Failed" by blast
    then show ?thesis using ev(1)
      by (intro exI[of _ "ev # evs'"] exI[of _ s']) simp
  qed
qed

text \<open>
  C5, as stated: once a fetch has been rejected no entry is emitted. That fails for the
  prefetch of \<open>bufferLogs\<close>: its rejection is stored in \<open>nextEntryPromise\<close> and reaches the
  driver only when the driver next waits on that context. In scenario D, when the
  prefetch of the second source is rejected one entry has been printed; the head entry of
  the second source is printed afterwards, and only then does the merge reject.
\<close>

theorem nothing_printed_after_rejection_counterexample:
  "exec stackFrames MAX_LOG_ENTRY_BUFFER_SIZE (take 5 scheduleE) (init scenarioD) \<noteq> None
   \<and> rejection_seen (the (exec stackFrames MAX_LOG_ENTRY_BUFFER_SIZE (take 5 scheduleE) (init scenarioD)))
   \<and> printed (the (exec stackFrames MAX_LOG_ENTRY_BUFFER_SIZE (take 5 scheduleE) (init scenarioD)))
       = [\<lparr>date = 1, msg = ''a1''\<rparr>]
   \<and> exec stackFrames MAX_LOG_ENTRY_BUFFER_SIZE scheduleE (init scenarioD) \<noteq> None
   \<and> printed (the (exec stackFrames MAX_LOG_ENTRY_BUFFER_SIZE scheduleE (init scenarioD)))
       = [\<lparr>date = 1, msg = ''a1''\<rparr>, \<lparr>date = 2, msg = ''b1''\<rparr>]"
  by code_simp

section \<open>The buffer counter, exactly\<close>

lemma sum_list_pointwise_eq:
  fixes f :: "'a \<Rightarrow> int" and g :: "'b \<Rightarrow> int" and h :: "'a \<Rightarrow> int"
  assumes "length xs = length ys"
    and "\<And>j. j < length xs \<Longrightarrow> f (xs ! j) + g (ys ! j) = h (xs ! j)"
  shows "sum_list (map f xs) + sum_list (map g ys) = sum_list (map h xs)"
  using assms
proof (induction xs ys rule: list_induct2)
  case Nil
  then show ?case by simp
next
  case (Cons x xs y ys)
  have "f x + g y = h x" using Cons.prems[of 0] by simp
  moreover have "sum_list (map f xs) + sum_list (map g ys) = sum_list (map h xs)"
  proof (rule Cons.IH)
    fix j assume "j < length xs"
    then show "f (xs ! j) + g (ys ! j) = h (xs ! j)" using Cons.prems[of "Suc j"] by simp
  qed
  ultimately show ?case by simp
qed

lemma src_ok_weight_eq:
  assumes "src_ok j src ctx h d sg"
  shows "int (case ctx of None \<Rightarrow> 0 | Some c \<Rightarrow> length (bufferedEntries c))
         + (if ended_without_entry ctx then 1 else 0)
         + int (length (filter (\<lambda>f. fst f = Prefetch) (outstanding src))) = weight ctx"
proof (cases "outstanding src")
  case Nil
  show ?thesis
  proof (cases ctx)
    case None
    with Nil show ?thesis by (simp add: weight_def ended_without_entry_def)
  next
    case (Some c)
    have "nextEntryPromise c \<noteq> Some Pending"
      using assms Nil Some by (auto simp: src_ok_def Let_def)
    then have p: "nextEntryPromise c = None \<or> nextEntryPromise c = Some Rejected"
      by (cases "nextEntryPromise c") (auto intro: promise.exhaust)
    have "drained c \<longrightarrow> nextEntryPromise c = None"
      using assms Some by (simp add: src_ok_def Let_def)
    with p Nil Some show ?thesis by (auto simp: weight_def ended_without_entry_def)
  qed
next
  case (Cons f fs)
  with assms have fs: "fs = []" by (simp add: src_ok_def Let_def)
  obtain k v where f: "f = (k, v)" by (cases f)
  show ?thesis
  proof (cases ctx)
    case None
    with assms Cons fs f show ?thesis
      by (auto simp: src_ok_def Let_def weight_def ended_without_entry_def)
  next
    case (Some c)
    with assms Cons fs f show ?thesis
      by (cases k) (auto simp: src_ok_def Let_def weight_def ended_without_entry_def)
  qed
qed

lemma length_filter_sum:
  "int (length (filter P xs)) = sum_list (map (\<lambda>x. if P x then 1 else 0) xs)"
  by (induction xs) simp_all

lemma delivered_none_ended:
  assumes "prefetches_delivered s"
  shows "prefetchesWithoutEntry s = 0"
proof -
  have "\<not> ended_without_entry ctx" if "ctx \<in> set (contexts s)" for ctx
    using assms that
    by (cases ctx) (auto simp: prefetches_delivered_def list_all_iff ended_without_entry_def)
  then show ?thesis by (simp add: prefetchesWithoutEntry_def filter_empty_conv)
qed

lemma exec_counter_exact:
  assumes "exec lim mx evs (init srcs) = Some s"
  shows "counted s"
proof -
  have "Inv s \<and> counted s"
  proof (rule exec_invariant[OF assms(1) Inv_init])
    show "counted (init srcs)"
      by (simp add: counted_def init_def weight_def o_def)
  next
    fix ev s s' assume "Inv s" "counted s" "trans mx ev s s'"
    then show "counted s'"
      using counted_trans by blast
  qed (simp add: counted_def)
  then show ?thesis ..
qed

text \<open>
  C6, amended: at every point of a run at which no prefetch has ended without an entry (no
  context is marked \<open>drained\<close>, none holds a rejected promise), the counter
  \<open>numLogEntriesBuffered\<close> equals the number of entries in all read-ahead buffers plus
  the number of prefetches that \<open>bufferLogs\<close> has issued and that have not settled. At
  every point of a run, the counter is that sum plus the number of prefetches that have
  ended without an entry.
\<close>

theorem counter_counts_buffered_and_in_flight:
  assumes "exec lim mx evs (init srcs) = Some s"
  shows "numLogEntriesBuffered s
           = int (totalBuffered s) + int (prefetchesInFlight s) + int (prefetchesWithoutEntry s)
         \<and> (prefetches_delivered s \<longrightarrow>
               numLogEntriesBuffered s = int (totalBuffered s) + int (prefetchesInFlight s))"
proof -
  note inv = exec_Inv[OF assms(1)]
  have len: "length (contexts s) = length (logSources s)"
    using Inv_wf[OF inv] by (simp add: wf_def)
  let ?b = "\<lambda>ctx. int (case ctx of None \<Rightarrow> 0 | Some c \<Rightarrow> length (bufferedEntries c))"
  let ?e = "\<lambda>ctx. if ended_without_entry ctx then 1 else (0::int)"
  let ?f = "\<lambda>src. int (length (filter (\<lambda>f. fst f = Prefetch) (outstanding src)))"
  have "sum_list (map (\<lambda>ctx. ?b ctx + ?e ctx) (contexts s)) + sum_list (map ?f (logSources s))
        = sum_list (map weight (contexts s))"
  proof (rule sum_list_pointwise_eq[OF len])
    fix j assume jc: "j < length (contexts s)"
    with len have j: "j < length (logSources s)" by simp
    show "?b (contexts s ! j) + ?e (contexts s ! j) + ?f (logSources s ! j) = weight (contexts s ! j)"
      by (rule src_ok_weight_eq[OF Inv_src[OF inv j]])
  qed
  moreover have "sum_list (map (\<lambda>ctx. ?b ctx + ?e ctx) (contexts s))
      = sum_list (map ?b (contexts s)) + sum_list (map ?e (contexts s))"
    by (simp add: sum_list_addf)
  moreover have "int (totalBuffered s) = sum_list (map ?b (contexts s))"
    unfolding totalBuffered_def by (simp add: sum_list_of_nat[symmetric] o_def)
  moreover have "int (prefetchesInFlight s) = sum_list (map ?f (logSources s))"
    unfolding prefetchesInFlight_def by (simp add: sum_list_of_nat[symmetric] o_def)
  moreover have "int (prefetchesWithoutEntry s) = sum_list (map ?e (contexts s))"
    unfolding prefetchesWithoutEntry_def by (rule length_filter_sum)
  ultimately have "numLogEntriesBuffered s
      = int (totalBuffered s) + int (prefetchesInFlight s) + int (prefetchesWithoutEntry s)"
    using exec_counter_exact[OF assms(1)] by (simp add: counted_def)
  then show ?thesis using delivered_none_ended[of s] by simp
qed

theorem counter_counts_buffered_and_in_flight_witness:
  "exec stackFrames 2 (take 5 scheduleD) (init scenarioD) \<noteq> None
   \<and> prefetches_delivered (the (exec stackFrames 2 (take 5 scheduleD) (init scenarioD)))
   \<and> numLogEntriesBuffered (the (exec stackFrames 2 (take 5 scheduleD) (init scenarioD))) = 2
   \<and> totalBuffered (the (exec stackFrames 2 (take 5 scheduleD) (init scenarioD))) = 1
   \<and> prefetchesInFlight (the (exec stackFrames 2 (take 5 scheduleD) (init scenarioD))) = 1"
proof -
  have ne: "exec stackFrames 2 (take 5 scheduleD) (init scenarioD) \<noteq> None" by code_simp
  then obtain s where s: "exec stackFrames 2 (take 5 scheduleD) (init scenarioD) = Some s" by blast
  have p: "prefetches_delivered (the (exec stackFrames 2 (take 5 scheduleD) (init scenarioD)))" by code_simp
  have b: "totalBuffered (the (exec stackFrames 2 (take 5 scheduleD) (init scenarioD))) = 1" by code_simp
  have f: "prefetchesInFlight (the (exec stackFrames 2 (take 5 scheduleD) (init scenarioD))) = 1" by code_simp
  from counter_counts_buffered_and_in_flight[OF s] ne s p b f show ?thesis by simp
qed

section \<open>Rejected fetches\<close>

lemma rejected_at_update:
  assumes "i < length (contexts s)" "rejected_at s i"
    and "contexts s' = (contexts s)[j := Some c']"
    and "j = i \<Longrightarrow> nextEntryPromise c' = Some Rejected"
  shows "rejected_at s' i"
  using assms by (cases "j = i") (simp_all add: rejected_at_def)

lemma rejected_at_stack [simp]: "rejected_at (s\<lparr>stack := n\<rparr>) i = rejected_at s i"
  by (simp add: rejected_at_def)

lemma rejected_at_same: "contexts s' = contexts s \<Longrightarrow> rejected_at s' i = rejected_at s i"
  by (simp add: rejected_at_def)

lemma rejected_at_bufferLogs:
  assumes "i < length (contexts s)" "rejected_at s i"
  shows "rejected_at (bufferLogs mx j s) i"
proof (cases mx j s rule: bufferLogs_cases)
  case same
  then show ?thesis using assms by simp
next
  case (issue c)
  show ?thesis
    by (rule rejected_at_update[OF assms, of _ j "c\<lparr>nextEntryPromise := Some Pending\<rparr>"])
       (use issue assms(2) in \<open>auto simp: rejected_at_def\<close>)
qed

lemma rejected_at_trans:
  assumes "trans mx ev s s'" "Inv s" "i < length (logSources s)" "rejected_at s i"
  shows "rejected_at s' i"
proof -
  have len: "length (contexts s) = length (logSources s)"
    using Inv_wf[OF assms(2)] by (simp add: wf_def)
  note ic = assms(3)[folded len]
  from assms(1) show ?thesis
  proof (cases rule: trans.cases)
    case (t_init_none j)
    then show ?thesis using assms(4) by (simp add: rejected_at_def settle_def)
  next
    case (t_init_some j e)
    let ?sa = "(settle j [] (Fulfilled (Some e)) s)
                 \<lparr>contexts := (contexts s)[j := Some (freshContext e)], heap := heap s @ [j]\<rparr>"
    have "rejected_at ?sa i"
      by (rule rejected_at_update[OF ic assms(4), of _ j "freshContext e"])
         (use t_init_some(4) assms(4) in \<open>auto simp: rejected_at_def settle_def\<close>)
    then show ?thesis unfolding t_init_some(2)
      by (intro rejected_at_bufferLogs) (simp_all add: settle_def ic)
  next
    case (t_prefetch j c v c')
    note p = src_ok_prefetch_pending[OF Inv_src[OF assms(2) t_prefetch(3), unfolded t_prefetch(4)] t_prefetch(5)]
    let ?sa = "(settle j [] (Fulfilled v) s)
                 \<lparr>contexts := (contexts s)[j := Some (c'\<lparr>nextEntryPromise := None\<rparr>)],
                  driver := (if driver s = AwaitPrefetch j then Resumable j else driver s)\<rparr>"
    have "rejected_at ?sa i"
      by (rule rejected_at_update[OF ic assms(4), of _ j "c'\<lparr>nextEntryPromise := None\<rparr>"])
         (use t_prefetch(4) p assms(4) in \<open>auto simp: rejected_at_def settle_def\<close>)
    then show ?thesis unfolding t_prefetch(2)
      by (intro rejected_at_bufferLogs) (simp_all add: settle_def ic)
  next
    case (t_direct_none j c)
    then show ?thesis using assms(4) by (simp add: rejected_at_def settle_def)
  next
    case (t_direct_some j c e)
    let ?sa = "(settle j [] (Fulfilled (Some e)) s)
                 \<lparr>contexts := (contexts s)[j := Some (c\<lparr>entry := e\<rparr>)],
                  heap := heap s @ [j], driver := Running\<rparr>"
    have "rejected_at ?sa i"
      by (rule rejected_at_update[OF ic assms(4), of _ j "c\<lparr>entry := e\<rparr>"])
         (use t_direct_some(4) assms(4) in \<open>auto simp: rejected_at_def settle_def\<close>)
    then show ?thesis unfolding t_direct_some(2)
      by (intro rejected_at_bufferLogs) (simp_all add: settle_def ic)
  next
    case (t_reject_initial j v)
    then show ?thesis using assms(4) by (simp add: rejected_at_def settle_def)
  next
    case (t_reject_prefetch j c v)
    show ?thesis
      by (rule rejected_at_update[OF ic assms(4), of _ j "c\<lparr>nextEntryPromise := Some Rejected\<rparr>"])
         (simp_all add: t_reject_prefetch(2) settle_def)
  next
    case (t_reject_direct j c v)
    then show ?thesis using assms(4) by (simp add: rejected_at_def settle_def)
  next
    case t_start
    then show ?thesis using assms(4) by (simp add: rejected_at_def)
  next
    case t_done
    then show ?thesis using assms(4) by (simp add: rejected_at_def)
  next
    case (t_case1 j c e r)
    let ?sa = "s\<lparr>printer := printer s @ [Print (entry c)],
                 numLogEntriesBuffered := numLogEntriesBuffered s - 1,
                 contexts := (contexts s)[j := Some (c\<lparr>entry := e, bufferedEntries := r\<rparr>)],
                 heap := remove1 j (heap s) @ [j], driver := Running\<rparr>"
    have "rejected_at ?sa i"
      by (rule rejected_at_update[OF ic assms(4), of _ j "c\<lparr>entry := e, bufferedEntries := r\<rparr>"])
         (use t_case1(7) assms(4) in \<open>auto simp: rejected_at_def\<close>)
    then show ?thesis unfolding t_case1(2)
      by (intro rejected_at_bufferLogs) (simp_all add: ic)
  next
    case (t_case2 j c)
    then show ?thesis using assms(4) by (simp add: rejected_at_def)
  next
    case (t_case2_rejected j c)
    then show ?thesis using assms(4) by (simp add: rejected_at_def)
  next
    case (t_case3 j c)
    then show ?thesis using assms(4) by (simp add: rejected_at_def)
  next
    case (t_case4 j c)
    then show ?thesis using assms(4) by (simp add: rejected_at_def)
  next
    case (t_resume_drop j c)
    then show ?thesis using assms(4) by (simp add: rejected_at_def)
  next
    case (t_resume_next j c e r)
    let ?sa = "s\<lparr>numLogEntriesBuffered := numLogEntriesBuffered s - 1,
                 contexts := (contexts s)[j := Some (c\<lparr>entry := e, bufferedEntries := r\<rparr>)],
                 heap := heap s @ [j], driver := Running\<rparr>"
    have "rejected_at ?sa i"
      by (rule rejected_at_update[OF ic assms(4), of _ j "c\<lparr>entry := e, bufferedEntries := r\<rparr>"])
         (use t_resume_next(5) assms(4) in \<open>auto simp: rejected_at_def\<close>)
    then show ?thesis unfolding t_resume_next(2)
      by (intro rejected_at_bufferLogs) (simp_all add: ic)
  next
    case t_abort_done
    then show ?thesis using assms(4) by (simp add: rejected_at_def)
  next
    case (t_abort_call j)
    then show ?thesis using assms(4) by (simp add: rejected_at_def)
  next
    case (t_abort_case1 j c e r)
    then show ?thesis using assms(4) by (simp add: rejected_at_def)
  next
    case (t_abort_resume j c e r)
    then show ?thesis using assms(4) by (simp add: rejected_at_def)
  qed
qed

lemma exec_rejected_at:
  assumes "exec lim mx evs s0 = Some s" "Inv s0" "i < length (logSources s0)" "rejected_at s0 i"
  shows "rejected_at s i"
proof -
  have "Inv s \<and> (i < length (logSources s) \<and> rejected_at s i)"
  proof (rule exec_invariant[OF assms(1,2)])
    show "i < length (logSources s0) \<and> rejected_at s0 i" using assms(3,4) by simp
  next
    fix ev s s' assume "Inv s" "i < length (logSources s) \<and> rejected_at s i" "trans mx ev s s'"
    then show "i < length (logSources s') \<and> rejected_at s' i"
      using rejected_at_trans trans_length by metis
  qed simp
  then show ?thesis by simp
qed

lemma reject_effect:
  assumes "Inv s" "step lim mx (Reject i k) s = Some s1"
  shows "printer s1 = printer s" "i < length (logSources s1)"
    "k = Initial \<or> k = Direct \<or> driver s = AwaitPrefetch i \<Longrightarrow> driver s1 = Failed"
    "k = Prefetch \<Longrightarrow> rejected_at s1 i"
proof -
  have len: "length (contexts s) = length (logSources s)"
    using Inv_wf[OF assms(1)] by (simp add: wf_def)
  define u where "u = s1\<lparr>stack := stack s\<rparr>"
  have t: "trans mx (Reject i k) s u"
    unfolding u_def by (rule step_trans_Reject[OF assms])
  from t have "printer u = printer s"
    by (cases rule: trans.cases) (simp_all add: settle_def)
  then show "printer s1 = printer s" by (simp add: u_def)
  from t have "i < length (logSources u)"
    by (cases rule: trans.cases) (simp_all add: settle_def)
  then show "i < length (logSources s1)" by (simp add: u_def)
  have "driver u = Failed" if "k = Initial \<or> k = Direct \<or> driver s = AwaitPrefetch i"
    using t
  proof (cases rule: trans.cases)
    case (t_reject_initial v)
    from src_ok_initial_driver[OF Inv_src[OF assms(1) t_reject_initial(3)] t_reject_initial(5)]
    show ?thesis by (auto simp: t_reject_initial(2))
  next
    case (t_reject_prefetch c v)
    then show ?thesis using that by auto
  next
    case (t_reject_direct c v)
    then show ?thesis by simp
  qed
  then show "driver s1 = Failed" if "k = Initial \<or> k = Direct \<or> driver s = AwaitPrefetch i"
    using that by (simp add: u_def)
  have "rejected_at u i" if "k = Prefetch"
    using t that
    by (cases rule: trans.cases) (simp_all add: rejected_at_def settle_def len)
  then show "rejected_at s1 i" if "k = Prefetch"
    using that by (simp add: u_def)
qed

lemma rejected_next_wait:
  assumes "rejected_at s i" "bufferedEntries (the (contexts s ! i)) = []"
    "step lim mx (ProcessNext (Some i)) s = Some s'"
  shows "driver s' = Failed"
  using assms
  by (cases "contexts s ! i")
     (auto simp: rejected_at_def processContext_def Let_def split: if_splits)

lemma exec_split:
  "exec lim mx (evs @ ev # evs1) s0 = Some s2 \<Longrightarrow>
     \<exists>s s1. exec lim mx evs s0 = Some s \<and> step lim mx ev s = Some s1 \<and> exec lim mx evs1 s1 = Some s2"
  by (auto simp: exec_append split: option.splits)

text \<open>
  C5, amended. Take a run in which a fetch of source \<open>i\<close> is rejected in state \<open>s\<close>, and any
  continuation of it: \<open>done()\<close> is never called. The promise returned by the merge rejects
  at once, and nothing is printed from the rejection on, when the fetch is an initial
  fetch, the direct fetch of CASE 4, or a prefetch the driver is waiting on. The rejection
  of any prefetch stays in \<open>nextEntryPromise\<close> of the context, and the merge rejects when
  the driver next pops that context with an empty buffer. Once the merge has rejected
  nothing more is printed. As long as it has not rejected some event can happen, a run
  has at most \<open>run_bound\<close> events, and every run can be continued until the merge rejects.
\<close>

theorem rejection_aborts:
  assumes "exec lim mx evs (init srcs) = Some s" "0 \<le> mx"
    and "step lim mx (Reject i k) s = Some s1" "exec lim mx evs1 s1 = Some s2"
  shows "Done \<notin> set (printer s2)
         \<and> (k = Initial \<or> k = Direct \<or> driver s = AwaitPrefetch i \<longrightarrow>
               driver s1 = Failed \<and> printer s2 = printer s)
         \<and> (k = Prefetch \<longrightarrow>
               rejected_at s2 i
               \<and> (bufferedEntries (the (contexts s2 ! i)) = [] \<longrightarrow>
                    (\<forall>s3. step lim mx (ProcessNext (Some i)) s2 = Some s3 \<longrightarrow> driver s3 = Failed)))
         \<and> (driver s2 = Failed \<longrightarrow>
               (\<forall>evs3 s3. exec lim mx evs3 s2 = Some s3 \<longrightarrow> driver s3 = Failed \<and> printer s3 = printer s2))
         \<and> (driver s2 = Failed \<or> (\<exists>ev. step lim mx ev s2 \<noteq> None))
         \<and> length (evs @ Reject i k # evs1) \<le> run_bound mx srcs
         \<and> (\<exists>evs3 s3. exec lim mx evs3 s2 = Some s3 \<and> driver s3 = Failed)"
proof -
  note inv = exec_Inv[OF assms(1)]
  have e1: "exec lim mx (evs @ [Reject i k]) (init srcs) = Some s1"
    using assms(1,3) by (simp add: exec_append)
  note inv1 = exec_Inv[OF e1]
  have e2: "exec lim mx (evs @ Reject i k # evs1) (init srcs) = Some s2"
    using assms(1,3,4) by (simp add: exec_append)
  note inv2 = exec_Inv[OF e2]
  have seen: "list_ex is_reject (evs @ Reject i k # evs1)" by simp
  note re = reject_effect[OF inv assms(3)]
  have nf: "driver s2 \<noteq> Finished" by (rule seen_not_finished[OF e2 seen])
  have a: "Done \<notin> set (printer s2)"
    using exec_sink_shape[OF e2] nf by (auto simp: sink_shape_def)
  have b: "driver s1 = Failed \<and> printer s2 = printer s"
    if "k = Initial \<or> k = Direct \<or> driver s = AwaitPrefetch i"
    using re(3)[OF that] exec_terminal[OF assms(4) inv1] re(1) by simp
  have c1: "rejected_at s2 i" if "k = Prefetch"
    by (rule exec_rejected_at[OF assms(4) inv1 re(2) re(4)[OF that]])
  have c2: "driver s3 = Failed"
    if "k = Prefetch" "bufferedEntries (the (contexts s2 ! i)) = []"
      "step lim mx (ProcessNext (Some i)) s2 = Some s3" for s3
    by (rule rejected_next_wait[OF c1[OF that(1)] that(2,3)])
  have d: "driver s3 = Failed \<and> printer s3 = printer s2"
    if "driver s2 = Failed" "exec lim mx evs3 s2 = Some s3" for evs3 s3
    using exec_terminal[OF that(2) inv2] that(1) by simp
  have e: "driver s2 = Failed \<or> (\<exists>ev. step lim mx ev s2 \<noteq> None)"
    using can_continue[OF inv2 nf, of lim mx] by blast
  from reaches_end[OF e2 assms(2)] obtain evs3 s3 where
    r: "exec lim mx ((evs @ Reject i k # evs1) @ evs3) (init srcs) = Some s3"
      "driver s3 = Finished \<or> driver s3 = Failed"
    by blast
  have "list_ex is_reject ((evs @ Reject i k # evs1) @ evs3)" by simp
  from seen_not_finished[OF r(1) this] r(2) have f3: "driver s3 = Failed" by simp
  have "exec lim mx evs3 s2 = Some s3"
    using r(1) unfolding exec_append[of lim mx "evs @ Reject i k # evs1" evs3] e2 by simp
  with f3 have f: "\<exists>evs3 s3. exec lim mx evs3 s2 = Some s3 \<and> driver s3 = Failed" by blast
  from a b c1 c2 d e f exec_bounded[OF e2 assms(2)] show ?thesis by blast
qed

theorem rejection_aborts_witness:
  "exec stackFrames MAX_LOG_ENTRY_BUFFER_SIZE (take 7 scheduleE) (init scenarioD) \<noteq> None
   \<and> (0::int) \<le> MAX_LOG_ENTRY_BUFFER_SIZE
   \<and> Done \<notin> set (printer (the (exec stackFrames MAX_LOG_ENTRY_BUFFER_SIZE (take 7 scheduleE) (init scenarioD))))
   \<and> rejected_at (the (exec stackFrames MAX_LOG_ENTRY_BUFFER_SIZE (take 7 scheduleE) (init scenarioD))) 1
   \<and> bufferedEntries (the (contexts (the (exec stackFrames MAX_LOG_ENTRY_BUFFER_SIZE (take 7 scheduleE) (init scenarioD))) ! 1)) = []
   \<and> exec stackFrames MAX_LOG_ENTRY_BUFFER_SIZE scheduleE (init scenarioD) \<noteq> None
   \<and> driver (the (exec stackFrames MAX_LOG_ENTRY_BUFFER_SIZE scheduleE (init scenarioD))) = Failed
   \<and> exec stackFrames MAX_LOG_ENTRY_BUFFER_SIZE [Fulfil 0 Initial, Reject 1 Initial, Fulfil 0 Prefetch] (init scenarioD) \<noteq> None
   \<and> driver (the (exec stackFrames MAX_LOG_ENTRY_BUFFER_SIZE [Fulfil 0 Initial, Reject 1 Initial] (init scenarioD))) = Failed
   \<and> printer (the (exec stackFrames MAX_LOG_ENTRY_BUFFER_SIZE [Fulfil 0 Initial, Reject 1 Initial, Fulfil 0 Prefetch] (init scenarioD)))
       = printer (the (exec stackFrames MAX_LOG_ENTRY_BUFFER_SIZE [Fulfil 0 Initial] (init scenarioD)))
   \<and> exec stackFrames MAX_LOG_ENTRY_BUFFER_SIZE
         [Fulfil 0 Initial, Reject 1 Initial, Fulfil 0 Prefetch, Fulfil 0 Prefetch] (init scenarioD) \<noteq> None
   \<and> driver (the (exec stackFrames MAX_LOG_ENTRY_BUFFER_SIZE
                      [Fulfil 0 Initial, Reject 1 Initial, Fulfil 0 Prefetch, Fulfil 0 Prefetch] (init scenarioD)))
       = Failed"
proof -
  let ?mx = MAX_LOG_ENTRY_BUFFER_SIZE
  let ?A = "[Fulfil 0 Initial, Fulfil 1 Initial, Start, ProcessNext (Some 0)]"
  let ?A1 = "[Fulfil 0 Prefetch, Resume]"
  have m: "(0::int) \<le> ?mx" by code_simp
  have t7: "take 7 scheduleE = ?A @ Reject 1 Prefetch # ?A1" by (simp add: scheduleE_def)
  have t8: "scheduleE = take 7 scheduleE @ [ProcessNext (Some 1)]" by (simp add: scheduleE_def)
  have ne7: "exec stackFrames ?mx (take 7 scheduleE) (init scenarioD) \<noteq> None" by code_simp
  then obtain s2 where s2: "exec stackFrames ?mx (take 7 scheduleE) (init scenarioD) = Some s2" by blast
  from exec_split[OF s2[unfolded t7]] obtain s s1 where
    a: "exec stackFrames ?mx ?A (init scenarioD) = Some s" "step stackFrames ?mx (Reject 1 Prefetch) s = Some s1"
      "exec stackFrames ?mx ?A1 s1 = Some s2" by blast
  have ne8: "exec stackFrames ?mx scheduleE (init scenarioD) \<noteq> None" by code_simp
  then obtain s3 where s3: "exec stackFrames ?mx scheduleE (init scenarioD) = Some s3" by blast
  have "exec stackFrames ?mx (take 7 scheduleE @ [ProcessNext (Some 1)]) (init scenarioD) = Some s3"
    by (subst t8[symmetric]) (rule s3)
  then have "exec stackFrames ?mx [ProcessNext (Some 1)] s2 = Some s3"
    unfolding exec_append s2 by simp
  then have st: "step stackFrames ?mx (ProcessNext (Some 1)) s2 = Some s3"
    by (cases "step stackFrames ?mx (ProcessNext (Some 1)) s2") (simp_all del: step.simps)
  have b2: "bufferedEntries (the (contexts (the (exec stackFrames ?mx (take 7 scheduleE) (init scenarioD))) ! 1)) = []"
    by code_simp
  note A = rejection_aborts[OF a(1) m a(2,3)]
  from b2 s2 have b2': "bufferedEntries (the (contexts s2 ! 1)) = []" by simp
  from A b2' st have f3: "driver s3 = Failed" by blast
  from A s2 have r2: "rejected_at s2 1" "Done \<notin> set (printer s2)" by simp_all
  let ?B = "[Fulfil 0 Initial]"
  let ?B1 = "[Fulfil 0 Prefetch]"
  have neB: "exec stackFrames ?mx (?B @ Reject 1 Initial # ?B1) (init scenarioD) \<noteq> None" by code_simp
  then obtain u2 where u2: "exec stackFrames ?mx (?B @ Reject 1 Initial # ?B1) (init scenarioD) = Some u2" by blast
  from exec_split[OF u2] obtain u u1 where
    b: "exec stackFrames ?mx ?B (init scenarioD) = Some u" "step stackFrames ?mx (Reject 1 Initial) u = Some u1"
      "exec stackFrames ?mx ?B1 u1 = Some u2" by blast
  note B = rejection_aborts[OF b(1) m b(2,3)]
  from B have fB: "driver u1 = Failed" "printer u2 = printer u" by simp_all
  have u1: "exec stackFrames ?mx [Fulfil 0 Initial, Reject 1 Initial] (init scenarioD) = Some u1"
    using exec_append[of stackFrames ?mx ?B "[Reject 1 Initial]" "init scenarioD"] b(1,2)
    by (simp del: step.simps)
  let ?B3 = "[Fulfil 0 Initial, Reject 1 Initial, Fulfil 0 Prefetch, Fulfil 0 Prefetch]"
  have neC: "exec stackFrames ?mx ?B3 (init scenarioD) \<noteq> None" by code_simp
  then obtain u3 where u3: "exec stackFrames ?mx ?B3 (init scenarioD) = Some u3" by blast
  have "exec stackFrames ?mx ((?B @ Reject 1 Initial # ?B1) @ [Fulfil 0 Prefetch]) (init scenarioD) = Some u3"
    using u3 by simp
  then have c: "exec stackFrames ?mx [Fulfil 0 Prefetch] u2 = Some u3"
    unfolding exec_append[of stackFrames ?mx "?B @ Reject 1 Initial # ?B1"] u2 by simp
  have fu2: "driver u2 = Failed"
    using exec_terminal[OF b(3) step_Inv[OF exec_Inv[OF b(1)] b(2)]] fB(1) by simp
  from B fu2 c have f4: "driver u3 = Failed" by blast
  from ne7 m r2 b2 ne8 f3 s2 s3 neB fB u1 u2 b(1) neC u3 f4 show ?thesis by simp
qed

section \<open>Deep recursion\<close>

lemma deep_first:
  assumes "es \<noteq> []" "mx \<noteq> 0"
  shows "\<exists>s. step lim mx (Fulfil 0 Initial) (init [es, []]) = Some s \<and> deepFilling es 0 s"
proof -
  from assms(1) obtain e r where es: "es = e # r" by (cases es) auto
  show ?thesis
    using assms(2) unfolding es
    by (cases r)
       (simp_all add: init_def popAsync_def settle_def initialFetched_def bufferLogs_def
          deepFilling_def)
qed

lemma deep_fill:
  assumes "deepFilling es k s" "k + 1 < length es" "int k + 1 \<noteq> mx"
  shows "\<exists>s'. step lim mx (Fulfil 0 Prefetch) s = Some s' \<and> deepFilling es (Suc k) s'"
proof -
  have kt: "k < length (tl es)" using assms(2) by simp
  have b: "take (Suc k) (tl es) = take k (tl es) @ [es ! Suc k]"
    using take_Suc_conv_app_nth[OF kt] nth_tl[OF kt] by simp
  show ?thesis
  proof (cases "k + 2 < length es")
    case True
    then have d: "drop (Suc (Suc k)) es = es ! Suc (Suc k) # drop (Suc (Suc (Suc k))) es"
      by (simp add: Cons_nth_drop_Suc)
    show ?thesis
      using assms True b d
      by (simp add: deepFilling_def settle_def prefetched_def Let_def bufferLogs_def popAsync_def)
  next
    case False
    then have d: "drop (Suc (Suc k)) es = []" "drop (Suc (Suc (Suc k))) es = []" by simp_all
    show ?thesis
      using assms False b d
      by (simp add: deepFilling_def settle_def prefetched_def Let_def bufferLogs_def popAsync_def)
  qed
qed

lemma deep_start:
  assumes "deepFilling es k s" "k + 1 = length es"
  shows "\<exists>s'. exec lim mx [Fulfil 0 Prefetch, Fulfil 1 Initial, Start] s = Some s'
              \<and> deepPrinting es 0 s'"
proof -
  have t: "take k (tl es) = tl es" using assms(2) by simp
  have d: "drop (Suc 0) es = tl es" by (simp add: drop_Suc)
  show ?thesis
    using assms t d
    by (simp add: deepFilling_def deepPrinting_def settle_def prefetched_def Let_def
          bufferLogs_def initialFetched_def no_initial_outstanding_def)
qed

lemma deep_print:
  assumes "deepPrinting es j s" "j + 1 < length es" "2 * int j + 1 < lim"
  shows "\<exists>s'. step lim mx (ProcessNext (Some 0)) s = Some s' \<and> deepPrinting es (Suc j) s'"
proof -
  have d: "drop (Suc j) es = es ! Suc j # drop (Suc (Suc j)) es"
    using assms(2) by (simp add: Cons_nth_drop_Suc)
  have t: "take (Suc j) es = take j es @ [es ! j]"
    using assms(2) by (simp add: take_Suc_conv_app_nth)
  show ?thesis
    using assms d t
    by (simp add: deepPrinting_def earliest_def processContext_def getNextEntry_def Let_def
          bufferLogs_def)
qed

lemma deep_abort:
  assumes "deepPrinting es j s" "lim \<le> 2 * int j"
  shows "step lim mx (ProcessNext (Some 0)) s = Some (s\<lparr>driver := Failed\<rparr>)"
  using assms by (simp add: deepPrinting_def earliest_def)

lemma deep_over:
  assumes "deepPrinting es j s"
  shows "step lim mx ev (s\<lparr>driver := Failed\<rparr>) = None"
proof (cases ev)
  case (Fulfil i k)
  then show ?thesis using assms
    by (cases i; cases "i - 1") (auto simp: deepPrinting_def)
next
  case (Reject i k)
  then show ?thesis using assms
    by (cases i; cases "i - 1") (auto simp: deepPrinting_def)
next
  case Start
  then show ?thesis by simp
next
  case (ProcessNext oi)
  then show ?thesis by (cases oi) simp_all
next
  case Resume
  then show ?thesis by simp
qed

lemma exec_fill:
  assumes "deepFilling es 0 s" "k < length es" "int (length es) \<le> mx"
  shows "\<exists>s'. exec lim mx (replicate k (Fulfil 0 Prefetch)) s = Some s' \<and> deepFilling es k s'"
  using assms(2)
proof (induction k)
  case 0
  then show ?case using assms(1) by simp
next
  case (Suc k)
  then obtain s1 where s1: "exec lim mx (replicate k (Fulfil 0 Prefetch)) s = Some s1"
    "deepFilling es k s1" by auto
  from Suc.prems assms(3) have "k + 1 < length es" "int k + 1 \<noteq> mx" by simp_all
  from deep_fill[OF s1(2) this, of lim] obtain s2 where
    s2: "step lim mx (Fulfil 0 Prefetch) s1 = Some s2" "deepFilling es (Suc k) s2" by blast
  have "exec lim mx (replicate k (Fulfil 0 Prefetch) @ [Fulfil 0 Prefetch]) s = Some s2"
    unfolding exec_append s1(1) using s2(1) by simp
  then show ?case using s2(2) by (simp add: replicate_append_same)
qed

lemma exec_print:
  assumes "deepPrinting es 0 s" "j < length es" "2 * int j \<le> lim"
  shows "\<exists>s'. exec lim mx (replicate j (ProcessNext (Some 0))) s = Some s' \<and> deepPrinting es j s'"
  using assms(2,3)
proof (induction j)
  case 0
  then show ?case using assms(1) by simp
next
  case (Suc j)
  then obtain s1 where s1: "exec lim mx (replicate j (ProcessNext (Some 0))) s = Some s1"
    "deepPrinting es j s1" by auto
  from Suc.prems have "j + 1 < length es" "2 * int j + 1 < lim" by simp_all
  from deep_print[OF s1(2) this, of mx] obtain s2 where
    s2: "step lim mx (ProcessNext (Some 0)) s1 = Some s2" "deepPrinting es (Suc j) s2" by blast
  have "exec lim mx (replicate j (ProcessNext (Some 0)) @ [ProcessNext (Some 0)]) s = Some s2"
    unfolding exec_append s1(1) using s2(1) by simp
  then show ?case using s2(2) by (simp add: replicate_append_same)
qed

lemma deep_run:
  assumes "m < n" "int n \<le> mx"
  shows "\<exists>s. exec (2 * int m) mx (deepRun n m) (init (deepSources n)) = Some s
             \<and> driver s = Failed
             \<and> printer s = map Print (take m (deepEntries n))
             \<and> list_all (\<lambda>src. remaining src = [] \<and> outstanding src = []) (logSources s)
             \<and> (\<forall>ev. step (2 * int m) mx ev s = None)"
proof -
  let ?lim = "2 * int m"
  let ?es = "deepEntries n"
  let ?F = "Fulfil 0 Prefetch"
  let ?P = "ProcessNext (Some 0)"
  have len: "length ?es = n" by (simp add: deepEntries_def)
  have ne: "?es \<noteq> []" using assms(1) len by auto
  have mx: "mx \<noteq> 0" using assms by simp
  from deep_first[OF ne mx, of ?lim] obtain s1 where
    s1: "step ?lim mx (Fulfil 0 Initial) (init [?es, []]) = Some s1" "deepFilling ?es 0 s1" by blast
  have "n - 1 < length ?es" "int (length ?es) \<le> mx" using assms len by simp_all
  from exec_fill[OF s1(2) this, of ?lim] obtain s2 where
    s2: "exec ?lim mx (replicate (n - 1) ?F) s1 = Some s2" "deepFilling ?es (n - 1) s2" by blast
  have "n - 1 + 1 = length ?es" using assms(1) len by simp
  from deep_start[OF s2(2) this, of ?lim mx] obtain s3 where
    s3: "exec ?lim mx [?F, Fulfil 1 Initial, Start] s2 = Some s3" "deepPrinting ?es 0 s3" by blast
  have "m < length ?es" "2 * int m \<le> ?lim" using assms(1) len by simp_all
  from exec_print[OF s3(2) this, of mx] obtain s4 where
    s4: "exec ?lim mx (replicate m ?P) s3 = Some s4" "deepPrinting ?es m s4" by blast
  have s5: "step ?lim mx ?P s4 = Some (s4\<lparr>driver := Failed\<rparr>)"
    by (rule deep_abort[OF s4(2)]) simp
  have run: "deepRun n m
             = [Fulfil 0 Initial] @ replicate (n - 1) ?F @ [?F, Fulfil 1 Initial, Start]
               @ replicate m ?P @ [?P]"
  proof -
    have "replicate n ?F = replicate (n - 1) ?F @ [?F]"
      using assms(1) by (cases n) (simp_all add: replicate_append_same)
    then show ?thesis by (simp add: deepRun_def replicate_append_same)
  qed
  have e1: "exec ?lim mx [Fulfil 0 Initial] (init (deepSources n)) = Some s1"
    using s1(1) by (simp add: deepSources_def del: step.simps)
  have e5: "exec ?lim mx [?P] s4 = Some (s4\<lparr>driver := Failed\<rparr>)"
    using s5 by (simp del: step.simps)
  have "exec ?lim mx (deepRun n m) (init (deepSources n)) = Some (s4\<lparr>driver := Failed\<rparr>)"
    unfolding run exec_append e1 by (simp only: option.case s2(1) s3(1) s4(1) e5)
  moreover have "printer (s4\<lparr>driver := Failed\<rparr>) = map Print (take m ?es)"
    using s4(2) by (simp add: deepPrinting_def)
  moreover have "list_all (\<lambda>src. remaining src = [] \<and> outstanding src = [])
                   (logSources (s4\<lparr>driver := Failed\<rparr>))"
    using s4(2) by (simp add: deepPrinting_def)
  moreover have "\<forall>ev. step ?lim mx ev (s4\<lparr>driver := Failed\<rparr>) = None"
    using deep_over[OF s4(2)] by blast
  ultimately show ?thesis by simp
qed

lemma deep_concat: "concat (deepSources n) = deepEntries n" "length (deepEntries n) = n"
  by (simp_all add: deepSources_def deepEntries_def)

lemma deep_no_reject: "\<not> list_ex is_reject (deepRun n m)"
  by (auto simp: deepRun_def list_ex_iff)

lemma concat_Print: "concat (map (\<lambda>c. case c of Print e \<Rightarrow> [e] | Done \<Rightarrow> []) (map Print es)) = es"
  by (induction es) simp_all

lemma printed_map_Print: "printer s = map Print es \<Longrightarrow> printed s = es"
  unfolding printed_def by (simp only: concat_Print)

section \<open>Correctness of the synchronous merge\<close>

lemma popAndPush_cases:
  obtains (empty) "syncSources s ! i = []"
      "popAndPush i s = s\<lparr>syncSources := (syncSources s)[i := []]\<rparr>"
  | (entry) e r where "syncSources s ! i = e # r"
      "popAndPush i s = s\<lparr>syncSources := (syncSources s)[i := r], syncHeap := syncHeap s @ [(i, e)]\<rparr>"
  by (cases "syncSources s ! i") (simp_all add: popAndPush_def pop_def)

lemma filter_fst_empty: "i \<notin> fst ` set h \<Longrightarrow> filter (\<lambda>x. fst x = i) h = []"
  by (induction h) auto

lemma filter_fst_single:
  "distinct (map fst h) \<Longrightarrow> (i, e) \<in> set h \<Longrightarrow> filter (\<lambda>x. fst x = i) h = [(i, e)]"
  by (induction h) (auto simp: filter_fst_empty)

lemma popAndPush_unprinted:
  assumes "i < length (syncSources s)" "i \<notin> fst ` set (syncHeap s)"
  shows "syncUnprinted (popAndPush i s) j = syncUnprinted s j"
proof (cases i s rule: popAndPush_cases)
  case empty
  then show ?thesis using assms
    by (cases "j = i") (simp_all add: syncUnprinted_def)
next
  case (entry e r)
  then show ?thesis using assms
    by (cases "j = i") (simp_all add: syncUnprinted_def filter_fst_empty)
qed

lemma popAndPush_shape:
  assumes "syncShape n s" "i < n" "i \<notin> fst ` set (syncHeap s)"
  shows "syncShape n (popAndPush i s)"
    "syncPrinter (popAndPush i s) = syncPrinter s"
    "i \<notin> fst ` set (syncHeap (popAndPush i s)) \<Longrightarrow> syncSources (popAndPush i s) ! i = []"
    "j \<noteq> i \<Longrightarrow> syncSources (popAndPush i s) ! j = syncSources s ! j"
    "j \<noteq> i \<Longrightarrow> j \<in> fst ` set (syncHeap (popAndPush i s)) \<longleftrightarrow> j \<in> fst ` set (syncHeap s)"
    "set (syncHeap (popAndPush i s)) \<subseteq> set (syncHeap s) \<union> {i} \<times> UNIV"
  using assms
  by (cases i s rule: popAndPush_cases; auto simp: syncShape_def)+

lemma sync_start_invariant:
  assumes "k \<le> length srcs"
  defines "s \<equiv> fold popAndPush [0..<k] \<lparr>syncSources = srcs, syncHeap = [], syncPrinter = []\<rparr>"
  shows "syncShape (length srcs) s \<and> (\<forall>x \<in> set (syncHeap s). fst x < k)
         \<and> (\<forall>j < k. j \<notin> fst ` set (syncHeap s) \<longrightarrow> syncSources s ! j = [])
         \<and> syncPrinter s = []
         \<and> (\<forall>j < length srcs. syncUnprinted s j = srcs ! j)"
  using assms(1) unfolding s_def
proof (induction k)
  case 0
  then show ?case by (simp add: syncShape_def syncUnprinted_def)
next
  case (Suc k)
  let ?s = "fold popAndPush [0..<k] \<lparr>syncSources = srcs, syncHeap = [], syncPrinter = []\<rparr>"
  from Suc have ih: "syncShape (length srcs) ?s" "\<forall>x \<in> set (syncHeap ?s). fst x < k"
    "\<forall>j < k. j \<notin> fst ` set (syncHeap ?s) \<longrightarrow> syncSources ?s ! j = []"
    "syncPrinter ?s = []" "\<forall>j < length srcs. syncUnprinted ?s j = srcs ! j"
    and k: "k < length srcs" by simp_all
  have nk: "k \<notin> fst ` set (syncHeap ?s)" using ih(2) by auto
  have kl: "k < length (syncSources ?s)" using ih(1) k by (simp add: syncShape_def)
  note sh = popAndPush_shape[OF ih(1) k nk]
  have f: "fold popAndPush [0..<Suc k] \<lparr>syncSources = srcs, syncHeap = [], syncPrinter = []\<rparr>
           = popAndPush k ?s" by simp
  have a: "\<forall>x \<in> set (syncHeap (popAndPush k ?s)). fst x < Suc k"
    using sh(6) ih(2) by fastforce
  have b: "syncSources (popAndPush k ?s) ! j = []"
    if "j < Suc k" "j \<notin> fst ` set (syncHeap (popAndPush k ?s))" for j
  proof (cases "j = k")
    case True
    then show ?thesis using sh(3) that(2) by simp
  next
    case False
    with that have "j < k" by simp
    then show ?thesis using ih(3) sh(4)[OF False] sh(5)[OF False] that(2) by simp
  qed
  show ?case
    unfolding f using sh(1) sh(2) ih(4,5) a b popAndPush_unprinted[OF kl nk] by simp
qed

lemma sum_mset_nth: "(\<Sum>j < length xss. mset (xss ! j)) = mset (concat xss)"
proof -
  have "(\<Sum>j < length xss. mset (xss ! j)) = sum_list (map mset xss)"
    by (simp add: sum_list_sum_nth atLeast0LessThan)
  then show ?thesis by (simp add: mset_concat)
qed

lemma syncInv_start:
  assumes "\<forall>src \<in> set srcs. sorted (map date src)"
  shows "syncInv srcs (syncStart srcs)"
proof -
  let ?s = "syncStart srcs"
  from sync_start_invariant[of "length srcs" srcs]
  have i: "syncShape (length srcs) ?s"
    "\<forall>j < length srcs. j \<notin> fst ` set (syncHeap ?s) \<longrightarrow> syncSources ?s ! j = []"
    "syncPrinter ?s = []" "\<forall>j < length srcs. syncUnprinted ?s j = srcs ! j"
    by (simp_all add: syncStart_def)
  have "(\<Sum>j < length srcs. mset (syncUnprinted ?s j)) = (\<Sum>j < length srcs. mset (srcs ! j))"
    using i(4) by (intro sum.cong) simp_all
  then have "(\<Sum>j < length srcs. mset (syncUnprinted ?s j)) = mset (concat srcs)"
    by (simp add: sum_mset_nth)
  then show ?thesis using i assms by (simp add: syncInv_def entries_def)
qed

lemma entries_append [simp]:
  "entries (out @ [Print e]) = entries out @ [e]"
  "entries (out @ [Done]) = entries out"
  "entries (map Print es) = es"
  by (simp_all add: entries_def) (induction es, simp_all)

lemma printed_entries: "printed s = entries (printer s)"
  by (simp add: printed_def entries_def)

lemma syncInv_iterate:
  assumes "syncInv srcs s" "syncIterate x s = Some s'"
  shows "syncInv srcs s'"
proof -
  let ?n = "length srcs"
  obtain i e where x: "x = (i, e)" by (cases x)
  let ?s1 = "s\<lparr>syncHeap := remove1 x (syncHeap s), syncPrinter := syncPrinter s @ [Print e]\<rparr>"
  from assms(2) x have xin: "x \<in> set (syncHeap s)"
    and le: "\<forall>y \<in> set (syncHeap s). date e \<le> date (snd y)"
    and il: "i < length (syncSources s)" and s': "s' = popAndPush i ?s1"
    by (auto simp: syncIterate_def syncEarliest_def list_all_iff split: if_splits)
  from assms(1) have sh: "syncShape ?n s"
    and ex: "\<forall>j < ?n. j \<notin> fst ` set (syncHeap s) \<longrightarrow> syncSources s ! j = []"
    and pr: "syncPrinter s = map Print (entries (syncPrinter s))"
    and so: "\<forall>j < ?n. sorted (map date (entries (syncPrinter s) @ syncUnprinted s j))"
    and co: "(\<Sum>j < ?n. mset (syncUnprinted s j)) + mset (entries (syncPrinter s)) = mset (concat srcs)"
    by (simp_all add: syncInv_def)
  from sh have n: "length (syncSources s) = ?n" and di: "distinct (map fst (syncHeap s))"
    by (simp_all add: syncShape_def)
  from il n have i: "i < ?n" by simp
  have di1: "distinct (map fst (remove1 x (syncHeap s)))"
    using di by (simp add: distinct_map distinct_remove1 inj_on_def)
  have ni: "i \<notin> fst ` set (syncHeap ?s1)"
  proof
    assume "i \<in> fst ` set (syncHeap ?s1)"
    then obtain e' where m: "(i, e') \<in> set (remove1 x (syncHeap s))" by auto
    then have "(i, e') \<in> set (syncHeap s)" by (meson notin_set_remove1)
    with filter_fst_single[OF di] xin x have "e' = e"
      by (metis list.inject prod.inject)
    with m x di show False by (simp add: distinct_map)
  qed
  have sh1: "syncShape ?n ?s1"
    using sh di1 by (auto simp: syncShape_def dest: notin_set_remove1)
  note pp = popAndPush_shape[OF sh1 i ni]
  have il1: "i < length (syncSources ?s1)" using il by simp
  have u': "syncUnprinted s' j = syncUnprinted ?s1 j" for j
    unfolding s' by (rule popAndPush_unprinted[OF il1 ni])
  have ui: "syncUnprinted s i = e # syncUnprinted ?s1 i"
    using filter_fst_single[OF di, of i e] xin x ni
    by (simp add: syncUnprinted_def filter_fst_empty)
  have uj: "syncUnprinted ?s1 j = syncUnprinted s j" if "j \<noteq> i" for j
    using that x by (simp add: syncUnprinted_def filter_remove1 remove1_idem)
  have pe: "entries (syncPrinter s') = entries (syncPrinter s) @ [e]"
    unfolding s' using pp(2) by simp
  have a: "syncShape ?n s'" unfolding s' by (rule pp(1))
  have b: "syncSources s' ! j = []" if "j < ?n" "j \<notin> fst ` set (syncHeap s')" for j
  proof (cases "j = i")
    case True
    then show ?thesis using pp(3) that(2) unfolding s' by simp
  next
    case False
    have "j \<notin> fst ` set (syncHeap s)"
    proof
      assume "j \<in> fst ` set (syncHeap s)"
      then obtain ej where "(j, ej) \<in> set (syncHeap s)" by auto
      with False x have "(j, ej) \<in> set (remove1 x (syncHeap s))" by simp
      then have "j \<in> fst ` set (syncHeap ?s1)" by force
      with pp(5)[OF False] that(2) show False unfolding s' by simp
    qed
    with ex that(1) pp(4)[OF False] show ?thesis unfolding s' by simp
  qed
  have c: "syncPrinter s' = map Print (entries (syncPrinter s'))"
    using pr pe pp(2) unfolding s' by simp
  from so i ui have si: "sorted (map date (entries (syncPrinter s) @ e # syncUnprinted ?s1 i))"
    by auto
  then have sp: "sorted (map date (entries (syncPrinter s) @ [e]))"
    by (auto simp: sorted_append)
  have d: "sorted (map date (entries (syncPrinter s') @ syncUnprinted s' j))" if j: "j < ?n" for j
  proof (cases "j = i")
    case True
    then show ?thesis using si pe u' by simp
  next
    case False
    from so j have sj: "sorted (map date (entries (syncPrinter s) @ syncUnprinted s j))" by simp
    have "date e \<le> date u" if u: "u \<in> set (syncUnprinted s j)" for u
    proof (cases "j \<in> fst ` set (syncHeap s)")
      case False
      with ex j have "syncUnprinted s j = []"
        by (simp add: syncUnprinted_def filter_fst_empty)
      with u show ?thesis by simp
    next
      case True
      then obtain ej where ej: "(j, ej) \<in> set (syncHeap s)" by auto
      with le have 1: "date e \<le> date ej" by force
      from filter_fst_single[OF di ej] have "syncUnprinted s j = ej # syncSources s ! j"
        by (simp add: syncUnprinted_def)
      with sj u have "date ej \<le> date u" by (auto simp: sorted_append)
      with 1 show ?thesis by simp
    qed
    with sj sp have "sorted (map date ((entries (syncPrinter s) @ [e]) @ syncUnprinted s j))"
      by (auto simp: sorted_append)
    then show ?thesis using pe u' uj[OF False] by simp
  qed
  have "(\<Sum>j < ?n. mset (syncUnprinted s' j)) + mset (syncUnprinted s i)
        = (\<Sum>j < ?n. mset (syncUnprinted s j)) + mset (syncUnprinted s' i)"
    by (rule sum_changes[OF i]) (simp add: u' uj)
  then have "(\<Sum>j < ?n. mset (syncUnprinted s' j)) + {#e#} = (\<Sum>j < ?n. mset (syncUnprinted s j))"
    using ui u' by simp
  note h = this
  have "(\<Sum>j < ?n. mset (syncUnprinted s' j)) + mset (entries (syncPrinter s) @ [e])
          = ((\<Sum>j < ?n. mset (syncUnprinted s' j)) + {#e#}) + mset (entries (syncPrinter s))"
    by simp
  also have "\<dots> = (\<Sum>j < ?n. mset (syncUnprinted s j)) + mset (entries (syncPrinter s))"
    by (simp only: h)
  finally have "(\<Sum>j < ?n. mset (syncUnprinted s' j)) + mset (entries (syncPrinter s) @ [e])
          = (\<Sum>j < ?n. mset (syncUnprinted s j)) + mset (entries (syncPrinter s))" .
  with co pe have f: "(\<Sum>j < ?n. mset (syncUnprinted s' j)) + mset (entries (syncPrinter s'))
          = mset (concat srcs)" by simp
  from sp pe have g: "sorted (map date (entries (syncPrinter s')))" by simp
  from a b c d f g show ?thesis by (simp add: syncInv_def)
qed

lemma syncLoop_result:
  assumes "syncLoop picks s = Some out" "syncInv srcs s"
  shows "out = map Print (entries out) @ [Done] \<and> sorted (map date (entries out))
         \<and> mset (entries out) = mset (concat srcs)"
  using assms
proof (induction picks arbitrary: s)
  case Nil
  then have h: "syncHeap s = []" and out: "out = syncPrinter s @ [Done]"
    by (simp_all split: if_splits)
  from Nil.prems(2) h have "\<forall>j < length srcs. syncUnprinted s j = []"
    by (simp add: syncInv_def syncUnprinted_def)
  then have "(\<Sum>j < length srcs. mset (syncUnprinted s j)) = {#}" by simp
  with Nil.prems(2) have "mset (entries (syncPrinter s)) = mset (concat srcs)"
    by (simp add: syncInv_def)
  moreover from Nil.prems(2) have "syncPrinter s = map Print (entries (syncPrinter s))"
    "sorted (map date (entries (syncPrinter s)))" by (simp_all add: syncInv_def)
  ultimately show ?case using out by simp
next
  case (Cons x picks)
  from Cons.prems(1) obtain s' where s': "syncIterate x s = Some s'" "syncLoop picks s' = Some out"
    by (auto split: option.splits)
  show ?case by (rule Cons.IH[OF s'(2) syncInv_iterate[OF Cons.prems(2) s'(1)]])
qed

lemma syncLoop_exists:
  assumes "syncInv srcs s"
  shows "\<exists>picks out. syncLoop picks s = Some out"
  using assms
proof (induction "sum_list (map length (syncSources s)) + length (syncHeap s)" arbitrary: s rule: less_induct)
  case less
  show ?case
  proof (cases "syncHeap s = []")
    case True
    then have "syncLoop [] s = Some (syncPrinter s @ [Done])" by simp
    then show ?thesis by blast
  next
    case False
    let ?x = "arg_min_list (\<lambda>y. date (snd y)) (syncHeap s)"
    have xin: "?x \<in> set (syncHeap s)" by (rule arg_min_list_in[OF False])
    have "date (snd ?x) \<le> date (snd y)" if "y \<in> set (syncHeap s)" for y
      using f_arg_min_list_f[OF False, of "\<lambda>y. date (snd y)"] that by simp
    with xin have e: "syncEarliest (syncHeap s) ?x" by (simp add: syncEarliest_def list_all_iff)
    from less.prems xin have il: "fst ?x < length (syncSources s)"
      by (simp add: syncInv_def syncShape_def)
    let ?s1 = "s\<lparr>syncHeap := remove1 ?x (syncHeap s), syncPrinter := syncPrinter s @ [Print (snd ?x)]\<rparr>"
    have it: "syncIterate ?x s = Some (popAndPush (fst ?x) ?s1)"
      using e il by (simp add: syncIterate_def)
    have l1: "length (remove1 ?x (syncHeap s)) = length (syncHeap s) - 1"
      using xin by (simp add: length_remove1)
    have hl: "length (syncHeap s) > 0" using False by simp
    have "sum_list (map length (syncSources (popAndPush (fst ?x) ?s1)))
          + length (syncHeap (popAndPush (fst ?x) ?s1))
          < sum_list (map length (syncSources s)) + length (syncHeap s)"
    proof (cases "fst ?x" ?s1 rule: popAndPush_cases)
      case empty
      then have "(syncSources s)[fst ?x := []] = syncSources s"
        using il by (simp add: list_update_same_conv)
      with empty l1 hl show ?thesis by simp
    next
      case (entry e' r)
      have "sum_list (map length ((syncSources s)[fst ?x := r]))
            = sum_list (map length (syncSources s)) + length r - length (syncSources s ! fst ?x)"
        using il by (simp add: sum_list_update map_update)
      moreover have "length (syncSources s ! fst ?x) \<le> sum_list (map length (syncSources s))"
        using il by (simp add: member_le_sum_list)
      ultimately show ?thesis using entry l1 hl by simp
    qed
    from less.hyps[OF this syncInv_iterate[OF less.prems it]]
    obtain picks out where "syncLoop picks (popAndPush (fst ?x) ?s1) = Some out" by blast
    then have "syncLoop (?x # picks) s = Some out" using it by simp
    then show ?thesis by blast
  qed
qed

section \<open>The chain of calls and the call stack\<close>

lemma sync_single:
  "syncLoop (map (\<lambda>e. (0, e)) (e # r)) \<lparr>syncSources = [r, []], syncHeap = [(0, e)], syncPrinter = p\<rparr>
   = Some (p @ map Print (e # r) @ [Done])"
proof (induction r arbitrary: e p)
  case Nil
  then show ?case
    by (simp add: syncIterate_def syncEarliest_def popAndPush_def pop_def)
next
  case (Cons a r)
  have "syncIterate (0, e) \<lparr>syncSources = [a # r, []], syncHeap = [(0, e)], syncPrinter = p\<rparr>
        = Some \<lparr>syncSources = [r, []], syncHeap = [(0, a)], syncPrinter = p @ [Print e]\<rparr>"
    by (simp add: syncIterate_def syncEarliest_def popAndPush_def pop_def)
  then show ?case using Cons.IH[of a "p @ [Print e]"] by simp
qed

lemma sync_deep:
  assumes "0 < n"
  shows "syncMerge (deepPicks n) (deepSources n) = Some (map Print (deepEntries n) @ [Done])"
proof -
  from assms obtain e r where es: "deepEntries n = e # r"
    by (cases "deepEntries n") (simp_all add: deepEntries_def)
  have "syncStart [e # r, []] = \<lparr>syncSources = [r, []], syncHeap = [(0, e)], syncPrinter = []\<rparr>"
    by (simp add: syncStart_def popAndPush_def pop_def)
  then show ?thesis
    using sync_single[of e r "[]"] by (simp add: syncMerge_def deepPicks_def deepSources_def es)
qed

lemma deep_sorted: "list_all (\<lambda>src. sorted (map date src)) (deepSources n)"
proof -
  have "map date (deepEntries n) = map int [0..<n]" by (simp add: deepEntries_def o_def)
  moreover have "sorted (map int [0..<n])" by (simp add: sorted_map sorted_wrt_iff_nth_less)
  ultimately show ?thesis by (simp add: deepSources_def)
qed

text \<open>
  C2 says that \<open>printer.print\<close> is called exactly once for every entry of the sources.
  The code does not do that when the chain of nested calls outgrows the call stack. The
  call stack holds \<open>2 * m\<close> frames; the first of two sources has \<open>n > m\<close> entries, the
  second none, and the ceiling is not reached. In the run \<open>deepRun n m\<close> no fetch is
  rejected. It ends, with no event left that could happen, when the first \<open>m\<close> entries
  have been printed: the entries behind them are never passed to \<open>printer.print\<close>. Every
  one of the \<open>m\<close> entries was followed by a call of \<open>getNextEntry\<close> that called
  \<open>processNextLogEntry\<close> (lines 85 and 80), two frames that stay on the call stack, and
  the call after the last of them throws a \<open>RangeError\<close>.
\<close>

theorem entries_dropped_when_stack_full:
  assumes "m < n" "int n \<le> mx"
  shows "\<exists>s. exec (2 * int m) mx (deepRun n m) (init (deepSources n)) = Some s
             \<and> \<not> list_ex is_reject (deepRun n m)
             \<and> (\<forall>ev. step (2 * int m) mx ev s = None)
             \<and> printed s = take m (concat (deepSources n))
             \<and> length (printed s) = m
             \<and> length (concat (deepSources n)) = n"
proof -
  from deep_run[OF assms] obtain s where
    s: "exec (2 * int m) mx (deepRun n m) (init (deepSources n)) = Some s"
      "printer s = map Print (take m (deepEntries n))"
      "\<forall>ev. step (2 * int m) mx ev s = None" by blast
  have "printed s = take m (concat (deepSources n))"
    using printed_map_Print[OF s(2)] by (simp add: deep_concat)
  moreover from this have "length (printed s) = m"
    using assms(1) by (simp add: deep_concat)
  ultimately show ?thesis using s(1,3) deep_no_reject[of n m] by (auto simp: deep_concat)
qed

theorem entries_dropped_when_stack_full_witness:
  "(5000::nat) < 8001 \<and> int 8001 \<le> MAX_LOG_ENTRY_BUFFER_SIZE
   \<and> exec stackFrames MAX_LOG_ENTRY_BUFFER_SIZE (deepRun 8001 5000) (init (deepSources 8001)) \<noteq> None
   \<and> (\<forall>ev. step stackFrames MAX_LOG_ENTRY_BUFFER_SIZE ev
              (the (exec stackFrames MAX_LOG_ENTRY_BUFFER_SIZE (deepRun 8001 5000) (init (deepSources 8001))))
            = None)
   \<and> length (printed (the (exec stackFrames MAX_LOG_ENTRY_BUFFER_SIZE (deepRun 8001 5000)
                               (init (deepSources 8001))))) = 5000
   \<and> length (concat (deepSources 8001)) = 8001"
proof -
  have a: "(5000::nat) < 8001" by simp
  have b: "int 8001 \<le> MAX_LOG_ENTRY_BUFFER_SIZE" by (simp add: MAX_LOG_ENTRY_BUFFER_SIZE_def)
  have l: "2 * int 5000 = stackFrames" by (simp add: stackFrames_def)
  from entries_dropped_when_stack_full[OF a b, unfolded l] a b show ?thesis by auto
qed

text \<open>
  C4 says that \<open>printer.done()\<close> is called exactly once in every run in which no fetch
  fails. The code does not do that when the chain of nested calls outgrows the call
  stack. In the run \<open>deepRun n m\<close>, with a call stack of \<open>2 * m\<close> frames, no fetch is
  rejected and, when the run ends, every source is exhausted and no fetch is outstanding;
  but the promise returned by the merge has rejected and \<open>printer.done()\<close> has not been
  called, nor can it be called later: no event is left that could happen.
\<close>

theorem done_not_called_when_stack_full:
  assumes "m < n" "int n \<le> mx"
  shows "\<exists>s. exec (2 * int m) mx (deepRun n m) (init (deepSources n)) = Some s
             \<and> list_all (\<lambda>ev. \<not> is_reject ev) (deepRun n m)
             \<and> (\<forall>ev. step (2 * int m) mx ev s = None)
             \<and> list_all (\<lambda>src. remaining src = [] \<and> outstanding src = []) (logSources s)
             \<and> driver s = Failed
             \<and> Done \<notin> set (printer s)"
proof -
  from deep_run[OF assms] obtain s where
    s: "exec (2 * int m) mx (deepRun n m) (init (deepSources n)) = Some s"
      "driver s = Failed"
      "printer s = map Print (take m (deepEntries n))"
      "list_all (\<lambda>src. remaining src = [] \<and> outstanding src = []) (logSources s)"
      "\<forall>ev. step (2 * int m) mx ev s = None" by blast
  have "Done \<notin> set (printer s)" unfolding s(3) by auto
  moreover have "list_all (\<lambda>ev. \<not> is_reject ev) (deepRun n m)"
    using deep_no_reject[of n m] by (simp add: list_all_iff list_ex_iff)
  ultimately show ?thesis using s by blast
qed

theorem done_not_called_when_stack_full_witness:
  "(5000::nat) < 8001 \<and> int 8001 \<le> MAX_LOG_ENTRY_BUFFER_SIZE
   \<and> exec stackFrames MAX_LOG_ENTRY_BUFFER_SIZE (deepRun 8001 5000) (init (deepSources 8001)) \<noteq> None
   \<and> list_all (\<lambda>ev. \<not> is_reject ev) (deepRun 8001 5000)
   \<and> (\<forall>ev. step stackFrames MAX_LOG_ENTRY_BUFFER_SIZE ev
              (the (exec stackFrames MAX_LOG_ENTRY_BUFFER_SIZE (deepRun 8001 5000) (init (deepSources 8001))))
            = None)
   \<and> driver (the (exec stackFrames MAX_LOG_ENTRY_BUFFER_SIZE (deepRun 8001 5000)
                      (init (deepSources 8001)))) = Failed
   \<and> Done \<notin> set (printer (the (exec stackFrames MAX_LOG_ENTRY_BUFFER_SIZE (deepRun 8001 5000)
                                   (init (deepSources 8001)))))"
proof -
  have a: "(5000::nat) < 8001" by simp
  have b: "int 8001 \<le> MAX_LOG_ENTRY_BUFFER_SIZE" by (simp add: MAX_LOG_ENTRY_BUFFER_SIZE_def)
  have l: "2 * int 5000 = stackFrames" by (simp add: stackFrames_def)
  from done_not_called_when_stack_full[OF a b, unfolded l] a b show ?thesis by auto
qed

text \<open>
  C8 says that on the same ascending sources the synchronous and the asynchronous merge
  emit the same entries and both call \<open>done()\<close> once at the end. The code does not do
  that when the chain of nested calls of the asynchronous merge outgrows the call stack.
  The sources \<open>deepSources n\<close> are ascending. The synchronous merge, which loops where
  the asynchronous merge recurses, prints all \<open>n\<close> entries and calls \<open>done()\<close>. The
  asynchronous run \<open>deepRun n m\<close>, with a call stack of \<open>2 * m\<close> frames and no rejected
  fetch, ends when the sink has received the first \<open>m\<close> entries and no \<open>done()\<close>.
\<close>

theorem async_falls_short_of_sync:
  assumes "m < n" "int n \<le> mx"
  shows "list_all (\<lambda>src. sorted (map date src)) (deepSources n)
         \<and> syncMerge (deepPicks n) (deepSources n) = Some (map Print (concat (deepSources n)) @ [Done])
         \<and> \<not> list_ex is_reject (deepRun n m)
         \<and> (\<exists>s. exec (2 * int m) mx (deepRun n m) (init (deepSources n)) = Some s
                 \<and> (\<forall>ev. step (2 * int m) mx ev s = None)
                 \<and> printer s = map Print (take m (concat (deepSources n))))
         \<and> m < length (concat (deepSources n))"
proof -
  from deep_run[OF assms] obtain s where
    s: "exec (2 * int m) mx (deepRun n m) (init (deepSources n)) = Some s"
      "printer s = map Print (take m (deepEntries n))"
      "\<forall>ev. step (2 * int m) mx ev s = None" by blast
  have "0 < n" using assms(1) by simp
  from sync_deep[OF this] deep_sorted[of n] deep_no_reject[of n m] s assms(1)
  show ?thesis by (auto simp: deep_concat)
qed

theorem async_falls_short_of_sync_witness:
  "(5000::nat) < 8001 \<and> int 8001 \<le> MAX_LOG_ENTRY_BUFFER_SIZE
   \<and> syncMerge (deepPicks 8001) (deepSources 8001)
       = Some (map Print (concat (deepSources 8001)) @ [Done])
   \<and> exec stackFrames MAX_LOG_ENTRY_BUFFER_SIZE (deepRun 8001 5000) (init (deepSources 8001)) \<noteq> None
   \<and> printer (the (exec stackFrames MAX_LOG_ENTRY_BUFFER_SIZE (deepRun 8001 5000)
                      (init (deepSources 8001))))
       = map Print (take 5000 (concat (deepSources 8001)))
   \<and> (5000::nat) < length (concat (deepSources 8001))"
proof -
  have a: "(5000::nat) < 8001" by simp
  have b: "int 8001 \<le> MAX_LOG_ENTRY_BUFFER_SIZE" by (simp add: MAX_LOG_ENTRY_BUFFER_SIZE_def)
  have l: "2 * int 5000 = stackFrames" by (simp add: stackFrames_def)
  from async_falls_short_of_sync[OF a b, unfolded l] a b show ?thesis by auto
qed

end
